theory Spec2Isabelle
  imports Complex_Main "HOL-Library.Sublist"
begin

chapter \<open>The extractor\<close>

section \<open>Python values\<close>

text \<open>
  The extractor works on decoded JSON: every value it touches is \<^verbatim>\<open>None\<close>, a bool, an
  int, a float, a str, a list or a dict with string keys. A dict is an association list in
  insertion order, read with \<open>map_of\<close>. A float is its exact rational value (Python
  compares an int with a float by value); the non-finite floats, which are not JSON, are
  left out.
\<close>

datatype py =
    PNone
  | PBool bool
  | PInt int
  | PFloat rat
  | PStr string
  | PList "py list"
  | PDict "(string \<times> py) list"

datatype error =
    AttributeError
  | TypeError
  | KeyError
  | IndexError
  | RequestException
  | JSONDecodeError

text \<open>Truth value testing: \<^verbatim>\<open>if x\<close>, \<^verbatim>\<open>not x\<close>, \<^verbatim>\<open>a and b\<close>.\<close>

fun truthy :: "py \<Rightarrow> bool" where
  "truthy PNone = False"
| "truthy (PBool b) = b"
| "truthy (PInt n) = (n \<noteq> 0)"
| "truthy (PFloat r) = (r \<noteq> 0)"
| "truthy (PStr s) = (s \<noteq> [])"
| "truthy (PList xs) = (xs \<noteq> [])"
| "truthy (PDict d) = (d \<noteq> [])"

text \<open>
  Hashing for dict keys and set members. Lists and dicts are unhashable (\<^verbatim>\<open>TypeError\<close>);
  \<^verbatim>\<open>True\<close>, \<^verbatim>\<open>1\<close> and \<^verbatim>\<open>1.0\<close> are one key.
\<close>

datatype pykey = KNone | KNum rat | KStr string

fun hash_key :: "py \<Rightarrow> pykey option" where
  "hash_key PNone = Some KNone"
| "hash_key (PBool b) = Some (KNum (if b then 1 else 0))"
| "hash_key (PInt n) = Some (KNum (of_int n))"
| "hash_key (PFloat r) = Some (KNum r)"
| "hash_key (PStr s) = Some (KStr s)"
| "hash_key (PList xs) = None"
| "hash_key (PDict d) = None"

text \<open>\<^verbatim>\<open>x == n\<close> for an int \<open>n\<close>: never raises, and is false off the numbers.\<close>

fun py_eq_int :: "py \<Rightarrow> int \<Rightarrow> bool" where
  "py_eq_int (PBool b) n = ((if b then 1 else 0) = n)"
| "py_eq_int (PInt m) n = (m = n)"
| "py_eq_int (PFloat r) n = (r = of_int n)"
| "py_eq_int _ n = False"

text \<open>\<^verbatim>\<open>x.get(k, default)\<close>: only a dict has \<^verbatim>\<open>get\<close>.\<close>

fun py_get :: "py \<Rightarrow> string \<Rightarrow> py \<Rightarrow> error + py" where
  "py_get (PDict d) k dflt = Inr (case map_of d k of Some v \<Rightarrow> v | None \<Rightarrow> dflt)"
| "py_get _ k dflt = Inl AttributeError"

text \<open>
  \<^verbatim>\<open>x[0]\<close>: the first element of a list, the first character of a str; a dict has no
  key \<^verbatim>\<open>0\<close> (its keys are strings); nothing else is subscriptable.
\<close>

fun py_first :: "py \<Rightarrow> error + py" where
  "py_first (PList []) = Inl IndexError"
| "py_first (PList (x # xs)) = Inr x"
| "py_first (PStr []) = Inl IndexError"
| "py_first (PStr (c # cs)) = Inr (PStr [c])"
| "py_first (PDict d) = Inl KeyError"
| "py_first _ = Inl TypeError"

text \<open>
  \<^verbatim>\<open>iter(x)\<close>: the elements of a list, the characters of a str, the keys of a dict;
  nothing else is iterable.
\<close>

fun py_iter :: "py \<Rightarrow> error + py list" where
  "py_iter (PList xs) = Inr xs"
| "py_iter (PStr s) = Inr (map (\<lambda>c. PStr [c]) s)"
| "py_iter (PDict d) = Inr (map (\<lambda>kv. PStr (fst kv)) d)"
| "py_iter _ = Inl TypeError"

text \<open>
  \<^verbatim>\<open>{k1: v1, ...}.get(key, default)\<close> on a dict literal: the key is hashed first.
\<close>

definition literal_get :: "(py \<times> 'a) list \<Rightarrow> py \<Rightarrow> 'a \<Rightarrow> error + 'a" where
  "literal_get tbl key dflt =
     (case hash_key key of
        None \<Rightarrow> Inl TypeError
      | Some h \<Rightarrow>
          Inr (case find (\<lambda>kv. hash_key (fst kv) = Some h) tbl of
                 Some kv \<Rightarrow> snd kv
               | None \<Rightarrow> dflt))"

text \<open>\<^verbatim>\<open>str(n)\<close> for an int.\<close>

definition digit_char :: "nat \<Rightarrow> char" where
  "digit_char d = ''0123456789'' ! d"

function str_nat :: "nat \<Rightarrow> string" where
  "str_nat n = (if n < 10 then [digit_char n] else str_nat (n div 10) @ [digit_char (n mod 10)])"
  by pat_completeness auto
termination
  by (relation "measure id") auto

definition str_int :: "int \<Rightarrow> string" where
  "str_int i = (if i < 0 then CHR ''-'' # str_nat (nat (- i)) else str_nat (nat i))"

section \<open>Media classifier and quality selector\<close>

text \<open>
  \<^verbatim>\<open>detect_media_type\<close>: \<^verbatim>\<open>post_node.get('media_type', 1)\<close>, looked up in
  \<^verbatim>\<open>{1: 'image', 2: 'video', 8: 'carousel'}\<close> with default \<^verbatim>\<open>'unknown'\<close>.
\<close>

definition detect_media_type :: "py \<Rightarrow> error + string" where
  "detect_media_type post_node =
     (case py_get post_node ''media_type'' (PInt 1) of
        Inl e \<Rightarrow> Inl e
      | Inr media_type \<Rightarrow>
          literal_get [(PInt 1, ''image''), (PInt 2, ''video''), (PInt 8, ''carousel'')]
            media_type ''unknown'')"

text \<open>
  \<^verbatim>\<open>next((v for v in video_versions if v.get('type') == type_id), None)\<close>, on the
  elements of \<^verbatim>\<open>video_versions\<close>: the generator is lazy, so an element after the first
  match is never looked at.
\<close>

fun first_of_type :: "py list \<Rightarrow> int \<Rightarrow> error + py" where
  "first_of_type [] type_id = Inr PNone"
| "first_of_type (v # vs) type_id =
     (case py_get v ''type'' PNone of
        Inl e \<Rightarrow> Inl e
      | Inr t \<Rightarrow> if py_eq_int t type_id then Inr v else first_of_type vs type_id)"

text \<open>The \<^verbatim>\<open>for type_id in ...\<close> loop of \<^verbatim>\<open>select_best_video_quality\<close> and its last line.\<close>

fun select_loop :: "py \<Rightarrow> int list \<Rightarrow> error + py" where
  "select_loop video_versions [] =
     (if truthy video_versions then py_first video_versions else Inr PNone)"
| "select_loop video_versions (type_id # rest) =
     (case py_iter video_versions of
        Inl e \<Rightarrow> Inl e
      | Inr vs \<Rightarrow>
          (case first_of_type vs type_id of
             Inl e \<Rightarrow> Inl e
           | Inr video \<Rightarrow>
               if truthy video then Inr video else select_loop video_versions rest))"

definition priority :: "(py \<times> int list) list" where
  "priority =
     [(PStr ''highest'', [103, 102, 101]),
      (PStr ''medium'', [102, 103, 101]),
      (PStr ''lowest'', [101, 102, 103])]"

definition select_best_video_quality :: "py \<Rightarrow> py \<Rightarrow> error + py" where
  "select_best_video_quality video_versions preference =
     (case literal_get priority preference [103, 102, 101] of
        Inl e \<Rightarrow> Inl e
      | Inr type_ids \<Rightarrow> select_loop video_versions type_ids)"

section \<open>Extraction\<close>

text \<open>
  \<^verbatim>\<open>_extract_image_data\<close>. The result is the descriptor dict or \<^verbatim>\<open>None\<close>; an
  \<^verbatim>\<open>image_versions2\<close> that is no dict, or a first candidate that is no dict, raises.
\<close>

definition extract_image_data :: "py \<Rightarrow> int \<Rightarrow> int \<Rightarrow> error + py" where
  "extract_image_data node post_index media_index =
     (case py_get node ''image_versions2'' (PDict []) of
        Inl e \<Rightarrow> Inl e
      | Inr image_versions2 \<Rightarrow>
     (case py_get image_versions2 ''candidates'' (PList []) of
        Inl e \<Rightarrow> Inl e
      | Inr image_versions \<Rightarrow>
     if \<not> truthy image_versions then Inr PNone
     else
     (case py_first image_versions of
        Inl e \<Rightarrow> Inl e
      | Inr best_image \<Rightarrow>
     (case py_get best_image ''url'' PNone of
        Inl e \<Rightarrow> Inl e
      | Inr url \<Rightarrow>
     (case py_get node ''pk'' (PStr (str_int post_index)) of
        Inl e \<Rightarrow> Inl e
      | Inr post_id \<Rightarrow>
     (case py_get best_image ''width'' PNone of
        Inl e \<Rightarrow> Inl e
      | Inr width \<Rightarrow>
     (case py_get best_image ''height'' PNone of
        Inl e \<Rightarrow> Inl e
      | Inr height \<Rightarrow>
          Inr (PDict
            [(''url'', url),
             (''post_id'', post_id),
             (''type'', PStr ''image''),
             (''width'', width),
             (''height'', height),
             (''post_index'', PInt post_index),
             (''media_index'', PInt media_index)]))))))))"

text \<open>
  The thumbnail of \<^verbatim>\<open>_extract_video_data\<close>: the url of the first image candidate, or
  \<^verbatim>\<open>None\<close> when there is no candidate.
\<close>

definition thumbnail_of :: "py \<Rightarrow> error + py" where
  "thumbnail_of node =
     (case py_get node ''image_versions2'' (PDict []) of
        Inl e \<Rightarrow> Inl e
      | Inr image_versions2 \<Rightarrow>
     (case py_get image_versions2 ''candidates'' (PList []) of
        Inl e \<Rightarrow> Inl e
      | Inr image_versions \<Rightarrow>
     if truthy image_versions then
       (case py_first image_versions of
          Inl e \<Rightarrow> Inl e
        | Inr first_image \<Rightarrow> py_get first_image ''url'' PNone)
     else Inr PNone))"

text \<open>\<^verbatim>\<open>_extract_video_data\<close>.\<close>

definition extract_video_data :: "py \<Rightarrow> int \<Rightarrow> py \<Rightarrow> int \<Rightarrow> error + py" where
  "extract_video_data node post_index video_settings media_index =
     (case py_get node ''video_versions'' (PList []) of
        Inl e \<Rightarrow> Inl e
      | Inr video_versions \<Rightarrow>
     if \<not> truthy video_versions then Inr PNone
     else
     (case py_get video_settings ''video_quality'' (PStr ''highest'') of
        Inl e \<Rightarrow> Inl e
      | Inr preference \<Rightarrow>
     (case select_best_video_quality video_versions preference of
        Inl e \<Rightarrow> Inl e
      | Inr best_video \<Rightarrow>
     if \<not> truthy best_video then Inr PNone
     else
     (case thumbnail_of node of
        Inl e \<Rightarrow> Inl e
      | Inr thumbnail_url \<Rightarrow>
     (case py_get best_video ''url'' PNone of
        Inl e \<Rightarrow> Inl e
      | Inr url \<Rightarrow>
     (case py_get node ''pk'' (PStr (str_int post_index)) of
        Inl e \<Rightarrow> Inl e
      | Inr post_id \<Rightarrow>
     (case py_get best_video ''type'' PNone of
        Inl e \<Rightarrow> Inl e
      | Inr video_type \<Rightarrow>
     (case py_get best_video ''width'' PNone of
        Inl e \<Rightarrow> Inl e
      | Inr width \<Rightarrow>
     (case py_get best_video ''height'' PNone of
        Inl e \<Rightarrow> Inl e
      | Inr height \<Rightarrow>
     (case py_get node ''has_audio'' (PBool False) of
        Inl e \<Rightarrow> Inl e
      | Inr has_audio \<Rightarrow>
     (case py_get node ''product_type'' (PStr ''feed'') of
        Inl e \<Rightarrow> Inl e
      | Inr product_type \<Rightarrow>
          Inr (PDict
            [(''url'', url),
             (''post_id'', post_id),
             (''type'', PStr ''video''),
             (''video_type'', video_type),
             (''width'', width),
             (''height'', height),
             (''has_audio'', has_audio),
             (''product_type'', product_type),
             (''thumbnail_url'', thumbnail_url),
             (''post_index'', PInt post_index),
             (''media_index'', PInt media_index)]))))))))))))"

text \<open>
  \<^verbatim>\<open>_remove_duplicates\<close>: \<^verbatim>\<open>seen_urls\<close> is a set of hashed urls. The test
  \<^verbatim>\<open>url and url not in seen_urls\<close> hashes a truthy url, so a url that is a list or a
  dict raises.
\<close>

fun dedupe_loop :: "pykey set \<Rightarrow> py list \<Rightarrow> py list \<Rightarrow> error + py list" where
  "dedupe_loop seen_urls unique_media [] = Inr unique_media"
| "dedupe_loop seen_urls unique_media (item # rest) =
     (case py_get item ''url'' PNone of
        Inl e \<Rightarrow> Inl e
      | Inr url \<Rightarrow>
          if truthy url then
            (case hash_key url of
               None \<Rightarrow> Inl TypeError
             | Some h \<Rightarrow>
                 if h \<notin> seen_urls
                 then dedupe_loop (insert h seen_urls) (unique_media @ [item]) rest
                 else dedupe_loop seen_urls unique_media rest)
          else dedupe_loop seen_urls unique_media rest)"

definition remove_duplicates :: "py list \<Rightarrow> error + py list" where
  "remove_duplicates media_list = dedupe_loop {} [] media_list"

text \<open>
  The two lists \<^verbatim>\<open>extract_media_from_posts\<close> appends to. An exception inside the
  \<^verbatim>\<open>try\<close> of one post leaves what was appended before it, so the body of the loop
  returns the lists together with the exception, if any.
\<close>

record media_lists =
  images :: "py list"
  videos :: "py list"

text \<open>
  \<^verbatim>\<open>for media_index, carousel_item in enumerate(carousel_media, 1)\<close>, from the index
  \<open>media_index\<close> on.
\<close>

fun carousel_loop :: "py \<Rightarrow> int \<Rightarrow> int \<Rightarrow> py list \<Rightarrow> media_lists \<Rightarrow> error option \<times> media_lists" where
  "carousel_loop video_settings post_index media_index [] acc = (None, acc)"
| "carousel_loop video_settings post_index media_index (carousel_item # rest) acc =
     (case detect_media_type carousel_item of
        Inl e \<Rightarrow> (Some e, acc)
      | Inr carousel_type \<Rightarrow>
          if carousel_type = ''image'' then
            (case extract_image_data carousel_item post_index media_index of
               Inl e \<Rightarrow> (Some e, acc)
             | Inr image_data \<Rightarrow>
                 carousel_loop video_settings post_index (media_index + 1) rest
                   (if truthy image_data then acc\<lparr>images := images acc @ [image_data]\<rparr> else acc))
          else if carousel_type = ''video'' then
            (case py_get video_settings ''download_videos'' (PBool True) of
               Inl e \<Rightarrow> (Some e, acc)
             | Inr download_videos \<Rightarrow>
                 if truthy download_videos then
                   (case extract_video_data carousel_item post_index video_settings media_index of
                      Inl e \<Rightarrow> (Some e, acc)
                    | Inr video_data \<Rightarrow>
                        carousel_loop video_settings post_index (media_index + 1) rest
                          (if truthy video_data then acc\<lparr>videos := videos acc @ [video_data]\<rparr> else acc))
                 else carousel_loop video_settings post_index (media_index + 1) rest acc)
          else carousel_loop video_settings post_index (media_index + 1) rest acc)"

text \<open>
  The body of the \<^verbatim>\<open>try\<close> for one post. The local \<^verbatim>\<open>post_id\<close> is never used, and
  reading it cannot raise once the node has been classified; it is left out. When
  \<^verbatim>\<open>media_type\<close> is \<^verbatim>\<open>video\<close> and \<^verbatim>\<open>download_videos\<close> is falsy, the \<^verbatim>\<open>elif\<close> chain
  falls through to the carousel test, which fails: nothing is done.
\<close>

definition post_body :: "py \<Rightarrow> py \<Rightarrow> int \<Rightarrow> media_lists \<Rightarrow> error option \<times> media_lists" where
  "post_body post video_settings post_index acc =
     (case py_get post ''node'' (PDict []) of
        Inl e \<Rightarrow> (Some e, acc)
      | Inr node \<Rightarrow>
     (case detect_media_type node of
        Inl e \<Rightarrow> (Some e, acc)
      | Inr media_type \<Rightarrow>
          if media_type = ''image'' then
            (case extract_image_data node post_index 1 of
               Inl e \<Rightarrow> (Some e, acc)
             | Inr image_data \<Rightarrow>
                 (None, if truthy image_data then acc\<lparr>images := images acc @ [image_data]\<rparr> else acc))
          else if media_type = ''video'' then
            (case py_get video_settings ''download_videos'' (PBool True) of
               Inl e \<Rightarrow> (Some e, acc)
             | Inr download_videos \<Rightarrow>
                 if truthy download_videos then
                   (case extract_video_data node post_index video_settings 1 of
                      Inl e \<Rightarrow> (Some e, acc)
                    | Inr video_data \<Rightarrow>
                        (None, if truthy video_data then acc\<lparr>videos := videos acc @ [video_data]\<rparr> else acc))
                 else (None, acc))
          else if media_type = ''carousel'' then
            (case py_get node ''carousel_media'' (PList []) of
               Inl e \<Rightarrow> (Some e, acc)
             | Inr carousel_media \<Rightarrow>
                 (case py_iter carousel_media of
                    Inl e \<Rightarrow> (Some e, acc)
                  | Inr items \<Rightarrow> carousel_loop video_settings post_index 1 items acc))
          else (None, acc)))"

text \<open>
  \<^verbatim>\<open>for post in posts\<close>: both the normal end of the \<^verbatim>\<open>try\<close> and the handler add
  one to \<^verbatim>\<open>post_index\<close>.
\<close>

fun posts_loop :: "py \<Rightarrow> py list \<Rightarrow> int \<Rightarrow> media_lists \<Rightarrow> media_lists" where
  "posts_loop video_settings [] post_index acc = acc"
| "posts_loop video_settings (post # rest) post_index acc =
     posts_loop video_settings rest (post_index + 1)
       (snd (post_body post video_settings post_index acc))"

definition extract_media_from_posts :: "py list \<Rightarrow> py \<Rightarrow> error + py" where
  "extract_media_from_posts posts video_settings =
     (let acc = posts_loop video_settings posts 1 \<lparr>images = [], videos = []\<rparr> in
      case remove_duplicates (images acc) of
        Inl e \<Rightarrow> Inl e
      | Inr unique_images \<Rightarrow>
     (case remove_duplicates (videos acc) of
        Inl e \<Rightarrow> Inl e
      | Inr unique_videos \<Rightarrow>
          Inr (PDict [(''images'', PList unique_images), (''videos'', PList unique_videos)])))"

section \<open>Pagination\<close>

text \<open>
  \<^verbatim>\<open>fetch_user_posts\<close> sends one POST per page. The endpoint is a parameter: given the
  page number and the \<^verbatim>\<open>after\<close> cursor of the request, \<^verbatim>\<open>session.post\<close> raises or
  answers with a status code and a body, and \<^verbatim>\<open>response.json()\<close> raises on a body that
  is not JSON (\<open>json_body = None\<close>). Everything else of the request is constant. The
  state records the cursor of every request sent. Building the request raises nothing
  (the cursor is JSON, so \<^verbatim>\<open>json.dumps\<close> succeeds), \<^verbatim>\<open>_get_fb_dtsg\<close> catches every
  exception and only fills a form field, and the pause between pages and the prints have
  no bearing on the result: they are left out.
\<close>

datatype response = Response (status_code: int) (json_body: "py option")

type_synonym endpoint = "int \<Rightarrow> py \<Rightarrow> error + response"

record fetch_state =
  all_posts :: "py list"
  after_cursor :: py
  page :: int
  requests :: "py list"

definition timeline_key :: string where
  "timeline_key = ''xdt_api__v1__feed__user_timeline_graphql_connection''"

text \<open>
  One iteration of the \<^verbatim>\<open>while\<close> loop up to \<^verbatim>\<open>time.sleep\<close>: \<open>False\<close> is
  \<^verbatim>\<open>break\<close>. Every exception is raised inside the \<^verbatim>\<open>try\<close> and ends the loop.
\<close>

definition fetch_page :: "endpoint \<Rightarrow> fetch_state \<Rightarrow> bool \<times> fetch_state" where
  "fetch_page post st =
     (let st1 = st\<lparr>requests := requests st @ [after_cursor st]\<rparr> in
      case post (page st) (after_cursor st) of
        Inl e \<Rightarrow> (False, st1)
      | Inr response \<Rightarrow>
          if status_code response = 200 then
            (case json_body response of
               None \<Rightarrow> (False, st1)
             | Some data \<Rightarrow>
            (case py_get data ''data'' (PDict []) of
               Inl e \<Rightarrow> (False, st1)
             | Inr data_field \<Rightarrow>
            (case py_get data_field timeline_key (PDict []) of
               Inl e \<Rightarrow> (False, st1)
             | Inr timeline_data \<Rightarrow>
            (case py_get timeline_data ''edges'' (PList []) of
               Inl e \<Rightarrow> (False, st1)
             | Inr edges \<Rightarrow>
                 if truthy edges then
                   (case py_iter edges of
                      Inl e \<Rightarrow> (False, st1)
                    | Inr new_posts \<Rightarrow>
                        (let st2 = st1\<lparr>all_posts := all_posts st1 @ new_posts\<rparr> in
                         case py_get timeline_data ''page_info'' (PDict []) of
                           Inl e \<Rightarrow> (False, st2)
                         | Inr page_info \<Rightarrow>
                        (case py_get page_info ''has_next_page'' (PBool False) of
                           Inl e \<Rightarrow> (False, st2)
                         | Inr has_next_page \<Rightarrow>
                        (case py_get page_info ''end_cursor'' PNone of
                           Inl e \<Rightarrow> (False, st2)
                         | Inr end_cursor \<Rightarrow>
                             (let st3 = st2\<lparr>after_cursor := end_cursor\<rparr> in
                              if \<not> truthy has_next_page \<or> \<not> truthy end_cursor
                              then (False, st3)
                              else (True, st3))))))
                 else (False, st1)))))
          else (False, st1))"

function fetch_loop :: "endpoint \<Rightarrow> int \<Rightarrow> fetch_state \<Rightarrow> fetch_state" where
  "fetch_loop post max_pages st =
     (if page st \<le> max_pages then
        (case fetch_page post st of
           (True, st') \<Rightarrow> fetch_loop post max_pages (st'\<lparr>page := page st' + 1\<rparr>)
         | (False, st') \<Rightarrow> st')
      else st)"
  by pat_completeness auto
termination
  by (relation "measure (\<lambda>(post, max_pages, st). nat (max_pages + 1 - page st))")
     (auto simp: fetch_page_def Let_def split: sum.splits option.splits if_splits)

definition fetch_run :: "endpoint \<Rightarrow> int \<Rightarrow> fetch_state" where
  "fetch_run post max_pages =
     fetch_loop post max_pages \<lparr>all_posts = [], after_cursor = PNone, page = 1, requests = []\<rparr>"

definition fetch_user_posts :: "endpoint \<Rightarrow> int \<Rightarrow> py list" where
  "fetch_user_posts post max_pages = all_posts (fetch_run post max_pages)"

chapter \<open>Notions of the specification\<close>

section \<open>Quality selection as the specification words it\<close>

text \<open>
  A rendition is a dict; its type code is \<open>code\<close> when its \<^verbatim>\<open>type\<close> field equals
  the code as Python compares them.
\<close>

definition type_code_is :: "(string \<times> py) list \<Rightarrow> int \<Rightarrow> bool" where
  "type_code_is rendition code =
     (case map_of rendition ''type'' of Some t \<Rightarrow> py_eq_int t code | None \<Rightarrow> False)"

text \<open>
  Each preference has a fixed priority list; a preference that is none of the three has
  the list of \<^verbatim>\<open>highest\<close>.
\<close>

definition priority_list :: "string \<Rightarrow> int list" where
  "priority_list preference =
     (if preference = ''highest'' then [103, 102, 101]
      else if preference = ''medium'' then [102, 103, 101]
      else if preference = ''lowest'' then [101, 102, 103]
      else [103, 102, 101])"

text \<open>
  The rendition the specification asks for: take the earliest code of the priority list
  that some rendition carries, and return the first rendition carrying it; with no such
  code, the first rendition; with no rendition, \<^verbatim>\<open>None\<close>.
\<close>

definition selectVideo_spec :: "(string \<times> py) list list \<Rightarrow> string \<Rightarrow> py" where
  "selectVideo_spec renditions preference =
     (case find (\<lambda>code. \<exists>r \<in> set renditions. type_code_is r code) (priority_list preference) of
        Some code \<Rightarrow>
          (case find (\<lambda>r. type_code_is r code) renditions of
             Some r \<Rightarrow> PDict r
           | None \<Rightarrow> PNone)
      | None \<Rightarrow> (case renditions of [] \<Rightarrow> PNone | r # _ \<Rightarrow> PDict r))"

section \<open>Deduplication\<close>

text \<open>
  An item has a url when its \<^verbatim>\<open>url\<close> field is truthy: the test of
  \<^verbatim>\<open>_remove_duplicates\<close>. Its key is the hash of that url, by which the set
  \<^verbatim>\<open>seen_urls\<close> tells urls apart. \<open>item_ok\<close> holds of the items on which the loop
  does not raise.
\<close>

definition has_url :: "py \<Rightarrow> bool" where
  "has_url item = (case py_get item ''url'' PNone of Inl e \<Rightarrow> False | Inr url \<Rightarrow> truthy url)"

definition url_key :: "py \<Rightarrow> pykey option" where
  "url_key item =
     (case py_get item ''url'' PNone of
        Inl e \<Rightarrow> None
      | Inr url \<Rightarrow> if truthy url then hash_key url else None)"

definition item_ok :: "py \<Rightarrow> bool" where
  "item_ok item =
     (case py_get item ''url'' PNone of
        Inl e \<Rightarrow> False
      | Inr url \<Rightarrow> truthy url \<longrightarrow> hash_key url \<noteq> None)"

text \<open>The items the loop keeps, given the keys seen so far.\<close>

fun kept :: "pykey set \<Rightarrow> py list \<Rightarrow> py list" where
  "kept seen [] = []"
| "kept seen (x # xs) =
     (case url_key x of
        None \<Rightarrow> kept seen xs
      | Some k \<Rightarrow> if k \<in> seen then kept seen xs else x # kept (insert k seen) xs)"

section \<open>Media count\<close>

text \<open>
  The carousel-expanded media count of the input: a carousel counts its children, every
  other post counts one.
\<close>

definition post_media_count :: "py \<Rightarrow> nat" where
  "post_media_count post =
     (case py_get post ''node'' (PDict []) of
        Inl e \<Rightarrow> 1
      | Inr node \<Rightarrow>
          (case detect_media_type node of
             Inl e \<Rightarrow> 1
           | Inr media_type \<Rightarrow>
               if media_type = ''carousel'' then
                 (case py_get node ''carousel_media'' (PList []) of
                    Inl e \<Rightarrow> 0
                  | Inr carousel_media \<Rightarrow>
                      (case py_iter carousel_media of
                         Inl e \<Rightarrow> 0
                       | Inr items \<Rightarrow> length items))
               else 1))"

definition expanded_media_count :: "py list \<Rightarrow> nat" where
  "expanded_media_count posts = sum_list (map post_media_count posts)"

text \<open>The number of descriptors collected so far.\<close>

definition total :: "media_lists \<Rightarrow> nat" where
  "total acc = length (images acc) + length (videos acc)"

section \<open>Posts that are skipped\<close>

text \<open>
  A post has an unrecognized media type when its node is classified \<^verbatim>\<open>unknown\<close>; it is
  a carousel when its node is classified \<^verbatim>\<open>carousel\<close>.
\<close>

definition unrecognized_type :: "py \<Rightarrow> bool" where
  "unrecognized_type post =
     (case py_get post ''node'' (PDict []) of
        Inl e \<Rightarrow> False
      | Inr node \<Rightarrow> detect_media_type node = Inr ''unknown'')"

definition is_carousel :: "py \<Rightarrow> bool" where
  "is_carousel post =
     (case py_get post ''node'' (PDict []) of
        Inl e \<Rightarrow> False
      | Inr node \<Rightarrow> detect_media_type node = Inr ''carousel'')"

section \<open>Carousel children\<close>

text \<open>
  A child of a carousel is an image child or a video child by its classification. It
  yields a descriptor at a post index and a media index when the extraction of its kind
  returns that descriptor there.
\<close>

definition image_child :: "py \<Rightarrow> bool" where
  "image_child c = (detect_media_type c = Inr ''image'')"

definition video_child :: "py \<Rightarrow> bool" where
  "video_child c = (detect_media_type c = Inr ''video'')"

definition child_yields :: "py \<Rightarrow> int \<Rightarrow> py \<Rightarrow> int \<Rightarrow> py \<Rightarrow> bool" where
  "child_yields video_settings post_index child media_index descriptor =
     (image_child child \<and>
        extract_image_data child post_index media_index = Inr descriptor \<or>
      video_child child \<and>
        extract_video_data child post_index video_settings media_index = Inr descriptor)"

section \<open>Pages as the paginator reads them\<close>

text \<open>
  The connection object of a response: there is one when the request did not raise, the
  status is 200, the body is JSON, and \<^verbatim>\<open>data\<close> and the connection under it can be
  read (each a dict, or absent).
\<close>

definition timeline_data_of :: "error + response \<Rightarrow> py option" where
  "timeline_data_of r =
     (case r of
        Inl e \<Rightarrow> None
      | Inr response \<Rightarrow>
          if status_code response = 200 then
            (case json_body response of
               None \<Rightarrow> None
             | Some data \<Rightarrow>
                 (case py_get data ''data'' (PDict []) of
                    Inl e \<Rightarrow> None
                  | Inr data_field \<Rightarrow>
                      (case py_get data_field timeline_key (PDict []) of
                         Inl e \<Rightarrow> None
                       | Inr timeline_data \<Rightarrow> Some timeline_data)))
          else None)"

text \<open>
  The edges of a connection object: the elements of a truthy \<^verbatim>\<open>edges\<close>, none for a
  falsy or absent one; unreadable when the object is no dict or \<^verbatim>\<open>edges\<close> is truthy
  and not iterable.
\<close>

definition edges_of :: "py \<Rightarrow> py list option" where
  "edges_of timeline_data =
     (case py_get timeline_data ''edges'' (PList []) of
        Inl e \<Rightarrow> None
      | Inr edges \<Rightarrow>
          if truthy edges then
            (case py_iter edges of Inl e \<Rightarrow> None | Inr es \<Rightarrow> Some es)
          else Some [])"

text \<open>The edges a response adds to \<^verbatim>\<open>all_posts\<close>.\<close>

definition appended_edges :: "error + response \<Rightarrow> py list" where
  "appended_edges r =
     (case timeline_data_of r of
        None \<Rightarrow> []
      | Some timeline_data \<Rightarrow>
          (case edges_of timeline_data of None \<Rightarrow> [] | Some es \<Rightarrow> es))"

text \<open>
  A page read in full, as the fetch operation of the specification returns it: its
  edges, \<^verbatim>\<open>has_next_page\<close> (default \<^verbatim>\<open>False\<close>) and \<^verbatim>\<open>end_cursor\<close> (default
  \<^verbatim>\<open>None\<close>, which is how an absent cursor reads).
\<close>

definition read_page :: "error + response \<Rightarrow> (py list \<times> py \<times> py) option" where
  "read_page r =
     (case timeline_data_of r of
        None \<Rightarrow> None
      | Some timeline_data \<Rightarrow>
          (case edges_of timeline_data of
             None \<Rightarrow> None
           | Some es \<Rightarrow>
               (case py_get timeline_data ''page_info'' (PDict []) of
                  Inl e \<Rightarrow> None
                | Inr page_info \<Rightarrow>
                    (case py_get page_info ''has_next_page'' (PBool False) of
                       Inl e \<Rightarrow> None
                     | Inr has_next_page \<Rightarrow>
                         (case py_get page_info ''end_cursor'' PNone of
                            Inl e \<Rightarrow> None
                          | Inr end_cursor \<Rightarrow> Some (es, has_next_page, end_cursor))))))"

text \<open>
  A page after which pagination goes on: read in full, at least one edge,
  \<^verbatim>\<open>has_next_page\<close> and \<^verbatim>\<open>end_cursor\<close> truthy.
\<close>

definition continuing_page :: "error + response \<Rightarrow> py list \<Rightarrow> py \<Rightarrow> bool" where
  "continuing_page r es end_cursor =
     (case read_page r of
        None \<Rightarrow> False
      | Some (es', has_next_page, end_cursor') \<Rightarrow>
          es' = es \<and> end_cursor' = end_cursor \<and> es \<noteq> [] \<and>
          truthy has_next_page \<and> truthy end_cursor)"

text \<open>
  A script of continuing pages, from page \<open>p\<close> requested with \<open>cursor\<close>: each page is
  requested with the cursor the page before returned.
\<close>

fun scripted :: "endpoint \<Rightarrow> int \<Rightarrow> py \<Rightarrow> (py list \<times> py) list \<Rightarrow> bool" where
  "scripted post p cursor [] = True"
| "scripted post p cursor ((es, end_cursor) # rest) =
     (continuing_page (post p cursor) es end_cursor \<and> scripted post (p + 1) end_cursor rest)"

text \<open>The cursor after the scripted pages, and the cursors their requests carried.\<close>

definition last_cursor :: "py \<Rightarrow> (py list \<times> py) list \<Rightarrow> py" where
  "last_cursor cursor pages = last (cursor # map snd pages)"

definition sent_cursors :: "py \<Rightarrow> (py list \<times> py) list \<Rightarrow> py list" where
  "sent_cursors cursor pages = butlast (cursor # map snd pages)"

text \<open>
  A page fails before its edges are read when there is no connection object (transport
  error, status other than 200, body that is not JSON, \<^verbatim>\<open>data\<close> or the connection not
  a dict) or its edges are unreadable; it fails after them when the edges are read and the
  rest of the page (\<^verbatim>\<open>page_info\<close>) is not.
\<close>

definition failed_before_edges :: "error + response \<Rightarrow> bool" where
  "failed_before_edges r =
     (case timeline_data_of r of None \<Rightarrow> True | Some t \<Rightarrow> edges_of t = None)"

definition failed_after_edges :: "error + response \<Rightarrow> bool" where
  "failed_after_edges r =
     (case timeline_data_of r of
        None \<Rightarrow> False
      | Some t \<Rightarrow> edges_of t \<noteq> None \<and> read_page r = None)"

text \<open>An endpoint that answers every request with a continuing page.\<close>

definition always_more :: "endpoint \<Rightarrow> bool" where
  "always_more post = (\<forall>p cursor. \<exists>es c. continuing_page (post p cursor) es c)"

chapter \<open>Properties\<close>

section \<open>The quality selector\<close>

lemma first_of_type_dicts:
  "first_of_type (map PDict rs) c =
     Inr (case find (\<lambda>r. type_code_is r c) rs of Some r \<Rightarrow> PDict r | None \<Rightarrow> PNone)"
  by (induction rs) (auto simp: type_code_is_def split: option.splits)

lemma type_code_is_nonempty: "type_code_is r c \<Longrightarrow> r \<noteq> []"
  by (auto simp: type_code_is_def)

lemma find_type_truthy:
  "truthy (case find (\<lambda>r. type_code_is r c) rs of Some r \<Rightarrow> PDict r | None \<Rightarrow> PNone)
     = (\<exists>r \<in> set rs. type_code_is r c)"
  by (auto simp: find_None_iff dest: type_code_is_nonempty split: option.splits
      dest!: find_Some_iff[THEN iffD1])

lemma select_loop_dicts:
  "select_loop (PList (map PDict rs)) prio =
     Inr (case find (\<lambda>code. \<exists>r \<in> set rs. type_code_is r code) prio of
            Some code \<Rightarrow>
              (case find (\<lambda>r. type_code_is r code) rs of Some r \<Rightarrow> PDict r | None \<Rightarrow> PNone)
          | None \<Rightarrow> (case rs of [] \<Rightarrow> PNone | r # _ \<Rightarrow> PDict r))"
proof (induction prio)
  case Nil
  show ?case by (cases rs) simp_all
next
  case (Cons c prio)
  show ?case
    using Cons.IH by (simp add: first_of_type_dicts find_type_truthy del: truthy.simps)
qed

lemma literal_get_priority:
  "literal_get priority (PStr p) [103, 102, 101] = Inr (priority_list p)"
  by (simp add: literal_get_def priority_def priority_list_def)

text \<open>
  C4. On every sequence of rendition dicts and every preference string,
  \<^verbatim>\<open>select_best_video_quality\<close> returns (it raises nothing) the rendition the
  specification asks for: the first rendition whose type code is the earliest entry of
  the preference's priority list present among the renditions; the first rendition when
  no code of the list is present; \<^verbatim>\<open>None\<close> for no rendition; and the list of an
  unrecognised preference is \<open>[103, 102, 101]\<close>.
\<close>

theorem select_best_video_quality_spec:
  "select_best_video_quality (PList (map PDict renditions)) (PStr preference)
     = Inr (selectVideo_spec renditions preference)"
  by (simp add: select_best_video_quality_def literal_get_priority select_loop_dicts
      selectVideo_spec_def)

theorem select_best_video_quality_spec_witness:
  "select_best_video_quality
     (PList (map PDict [[(''type'', PInt 101), (''url'', PStr ''lo'')],
                        [(''type'', PInt 102), (''url'', PStr ''mid'')],
                        [(''type'', PInt 102), (''url'', PStr ''mid2'')]]))
     (PStr ''best'')
   = Inr (PDict [(''type'', PInt 102), (''url'', PStr ''mid'')])"
  using select_best_video_quality_spec
    [of "[[(''type'', PInt 101), (''url'', PStr ''lo'')],
          [(''type'', PInt 102), (''url'', PStr ''mid'')],
          [(''type'', PInt 102), (''url'', PStr ''mid2'')]]" "''best''"]
  by (simp add: selectVideo_spec_def priority_list_def type_code_is_def)

section \<open>A node without a media type\<close>

text \<open>
  C10. A node dict with no \<^verbatim>\<open>media_type\<close> field is classified \<^verbatim>\<open>image\<close>, so the
  loop of \<^verbatim>\<open>extract_media_from_posts\<close> runs the image extraction on it: the body of
  the loop is the image branch, and on the one-post input the manifest holds what
  \<^verbatim>\<open>_extract_image_data\<close> returned for the node.
\<close>

theorem detect_media_type_default_image:
  "map_of node ''media_type'' = None \<Longrightarrow>
   py_get post ''node'' (PDict []) = Inr (PDict node) \<Longrightarrow>
   detect_media_type (PDict node) = Inr ''image'' \<and>
   post_body post video_settings post_index acc =
     (case extract_image_data (PDict node) post_index 1 of
        Inl e \<Rightarrow> (Some e, acc)
      | Inr image_data \<Rightarrow>
          (None, if truthy image_data then acc\<lparr>images := images acc @ [image_data]\<rparr> else acc)) \<and>
   extract_media_from_posts [post] video_settings =
     (case remove_duplicates
             (case extract_image_data (PDict node) 1 1 of
                Inl e \<Rightarrow> []
              | Inr image_data \<Rightarrow> if truthy image_data then [image_data] else []) of
        Inl e \<Rightarrow> Inl e
      | Inr unique_images \<Rightarrow>
          Inr (PDict [(''images'', PList unique_images), (''videos'', PList [])]))"
proof -
  assume n: "map_of node ''media_type'' = None"
    and p: "py_get post ''node'' (PDict []) = Inr (PDict node)"
  have d: "detect_media_type (PDict node) = Inr ''image''"
    using n by (simp add: detect_media_type_def literal_get_def)
  have b: "post_body post video_settings i a =
       (case extract_image_data (PDict node) i 1 of
          Inl e \<Rightarrow> (Some e, a)
        | Inr image_data \<Rightarrow>
            (None, if truthy image_data then a\<lparr>images := images a @ [image_data]\<rparr> else a))"
    for i a
    using p d by (simp add: post_body_def)
  have e: "extract_media_from_posts [post] video_settings =
     (case remove_duplicates
             (case extract_image_data (PDict node) 1 1 of
                Inl e \<Rightarrow> []
              | Inr image_data \<Rightarrow> if truthy image_data then [image_data] else []) of
        Inl e \<Rightarrow> Inl e
      | Inr unique_images \<Rightarrow>
          Inr (PDict [(''images'', PList unique_images), (''videos'', PList [])]))"
    by (simp add: extract_media_from_posts_def b remove_duplicates_def split: sum.splits)
  from d b e show ?thesis by blast
qed

theorem detect_media_type_default_image_witness:
  "map_of [(''pk'', PStr ''p7''),
           (''image_versions2'', PDict [(''candidates'', PList [PDict [(''url'', PStr ''u'')]])])]
     ''media_type'' = None \<and>
   detect_media_type
     (PDict [(''pk'', PStr ''p7''),
             (''image_versions2'', PDict [(''candidates'', PList [PDict [(''url'', PStr ''u'')]])])])
     = Inr ''image'' \<and>
   extract_media_from_posts
     [PDict [(''node'',
        PDict [(''pk'', PStr ''p7''),
               (''image_versions2'', PDict [(''candidates'', PList [PDict [(''url'', PStr ''u'')]])])])]]
     (PDict [])
     = Inr (PDict [(''images'',
               PList [PDict [(''url'', PStr ''u''), (''post_id'', PStr ''p7''),
                             (''type'', PStr ''image''), (''width'', PNone), (''height'', PNone),
                             (''post_index'', PInt 1), (''media_index'', PInt 1)]]),
             (''videos'', PList [])])"
  using detect_media_type_default_image
    [of "[(''pk'', PStr ''p7''),
          (''image_versions2'', PDict [(''candidates'', PList [PDict [(''url'', PStr ''u'')]])])]"
        "PDict [(''node'',
           PDict [(''pk'', PStr ''p7''),
                  (''image_versions2'', PDict [(''candidates'', PList [PDict [(''url'', PStr ''u'')]])])])]"
        "PDict []"]
  by (simp add: extract_image_data_def remove_duplicates_def)

section \<open>The deduplicator\<close>

lemma dedupe_loop_kept:
  "dedupe_loop seen acc xs = Inr ys \<longleftrightarrow> list_all item_ok xs \<and> ys = acc @ kept seen xs"
proof (induction xs arbitrary: seen acc)
  case Nil
  show ?case by auto
next
  case (Cons x xs)
  show ?case
    by (cases "py_get x ''url'' PNone")
       (auto simp: Cons.IH item_ok_def url_key_def split: option.splits)
qed

lemma item_ok_has_url: "item_ok x \<Longrightarrow> has_url x \<longleftrightarrow> url_key x \<noteq> None"
  by (auto simp: item_ok_def has_url_def url_key_def split: sum.splits)

lemma kept_nths:
  "kept seen xs =
     nths xs {i. i < length xs \<and> (\<exists>k. url_key (xs ! i) = Some k \<and> k \<notin> seen) \<and>
                 (\<forall>j<i. url_key (xs ! j) \<noteq> url_key (xs ! i))}"
proof (induction xs arbitrary: seen)
  case Nil
  show ?case by simp
next
  case (Cons x xs)
  show ?case
  proof (cases "url_key x")
    case None
    then show ?thesis
      by (auto simp: Cons.IH nths_Cons All_less_Suc2 intro!: arg_cong[where f="nths xs"])
  next
    case (Some k)
    then show ?thesis
      by (auto simp: Cons.IH nths_Cons All_less_Suc2 intro!: arg_cong[where f="nths xs"])
  qed
qed

lemma remdups_snoc: "remdups (xs @ [k]) = remdups (filter (\<lambda>y. y \<noteq> k) xs) @ [k]"
  by (induction xs) auto

lemma first_occurrences_Cons:
  "rev (remdups (rev (k # ks))) = k # rev (remdups (rev (filter (\<lambda>y. y \<noteq> k) ks)))"
  by (simp add: remdups_snoc rev_filter)

lemma kept_keys:
  "map url_key (kept seen xs) =
     rev (remdups (rev (filter (\<lambda>k. k \<noteq> None \<and> k \<notin> Some ` seen) (map url_key xs))))"
proof (induction xs arbitrary: seen)
  case Nil
  show ?case by simp
next
  case (Cons x xs)
  have *: "filter (\<lambda>k. k \<noteq> Some a) (filter (\<lambda>k. k \<noteq> None \<and> k \<notin> Some ` seen) ks)
         = filter (\<lambda>k. k \<noteq> None \<and> k \<notin> Some ` insert a seen) ks" for a ks
    by (induction ks) auto
  show ?case
  proof (cases "url_key x")
    case None
    then show ?thesis by (simp add: Cons.IH)
  next
    case (Some a)
    show ?thesis
    proof (cases "a \<in> seen")
      case True
      with Some show ?thesis by (simp add: Cons.IH)
    next
      case False
      then have "Some a \<notin> Some ` seen" by blast
      have "map url_key (kept seen (x # xs)) = Some a # map url_key (kept (insert a seen) xs)"
        using Some False by simp
      also have "\<dots> = Some a # rev (remdups (rev
          (filter (\<lambda>k. k \<noteq> Some a)
             (filter (\<lambda>k. k \<noteq> None \<and> k \<notin> Some ` seen) (map url_key xs)))))"
        unfolding Cons.IH * ..
      also have "\<dots> = rev (remdups (rev
          (Some a # filter (\<lambda>k. k \<noteq> None \<and> k \<notin> Some ` seen) (map url_key xs))))"
        unfolding first_occurrences_Cons ..
      also have "Some a # filter (\<lambda>k. k \<noteq> None \<and> k \<notin> Some ` seen) (map url_key xs)
          = filter (\<lambda>k. k \<noteq> None \<and> k \<notin> Some ` seen) (map url_key (x # xs))"
        using Some \<open>Some a \<notin> Some ` seen\<close> by simp
      finally show ?thesis .
    qed
  qed
qed

lemma kept_subseq: "subseq (kept seen xs) xs"
  by (induction xs arbitrary: seen) (auto split: option.splits)

lemma kept_fixed:
  "None \<notin> set (map url_key zs) \<Longrightarrow> distinct (map url_key zs) \<Longrightarrow>
   (\<forall>z \<in> set zs. url_key z \<notin> Some ` seen) \<Longrightarrow> kept seen zs = zs"
proof (induction zs arbitrary: seen)
  case Nil
  show ?case by simp
next
  case (Cons z zs)
  from Cons.prems(1) obtain a where a: "url_key z = Some a"
    by (cases "url_key z") auto
  from Cons.prems(3) a have "a \<notin> seen" by auto
  moreover have "kept (insert a seen) zs = zs"
  proof (rule Cons.IH)
    show "None \<notin> set (map url_key zs)" using Cons.prems(1) by simp
    show "distinct (map url_key zs)" using Cons.prems(2) by simp
    show "\<forall>y \<in> set zs. url_key y \<notin> Some ` insert a seen"
      using Cons.prems(2,3) a by (force simp: image_iff)
  qed
  ultimately show ?case using a by simp
qed

lemma kept_idem: "kept {} (kept seen xs) = kept seen xs"
  by (rule kept_fixed) (auto simp: kept_keys)

lemma item_ok_kept: "list_all item_ok xs \<Longrightarrow> list_all item_ok (kept seen xs)"
  by (induction xs arbitrary: seen) (auto split: option.splits)

lemma remove_duplicates_kept:
  "remove_duplicates xs = Inr ys \<longleftrightarrow> list_all item_ok xs \<and> ys = kept {} xs"
  by (simp add: remove_duplicates_def dedupe_loop_kept)

lemma has_url_kept: "list_all item_ok xs \<Longrightarrow> x \<in> set (kept seen xs) \<Longrightarrow> has_url x"
proof -
  assume ok: "list_all item_ok xs" and x: "x \<in> set (kept seen xs)"
  have "None \<notin> set (map url_key (kept seen xs))"
    by (simp add: kept_keys)
  with x have "url_key x \<noteq> None" by force
  moreover have "item_ok x"
    using item_ok_kept[OF ok, of seen] x by (simp add: list_all_iff)
  ultimately show ?thesis by (simp add: item_ok_has_url)
qed

text \<open>
  C2, as stated, fails: an item without a url is not kept. Here the first item has no
  \<^verbatim>\<open>url\<close> field and the output is the second item alone.
\<close>

theorem remove_duplicates_drops_item_without_url:
  "\<not> has_url (PDict [(''post_id'', PStr ''9''), (''type'', PStr ''image'')]) \<and>
   remove_duplicates
     [PDict [(''post_id'', PStr ''9''), (''type'', PStr ''image'')],
      PDict [(''url'', PStr ''a''), (''post_id'', PStr ''10'')]]
   = Inr [PDict [(''url'', PStr ''a''), (''post_id'', PStr ''10'')]]"
  by (simp add: has_url_def remove_duplicates_def)

text \<open>
  C2, amended. When \<^verbatim>\<open>_remove_duplicates\<close> returns, every item of the output has a
  url (an item without one is dropped), and the output is the input restricted, in
  order, to the positions whose item has a url that no earlier item has.
\<close>

theorem remove_duplicates_first_occurrences:
  "remove_duplicates xs = Inr ys \<Longrightarrow>
   (\<forall>y \<in> set ys. has_url y) \<and>
   ys = nths xs {i. i < length xs \<and> has_url (xs ! i) \<and>
                    (\<forall>j<i. url_key (xs ! j) \<noteq> url_key (xs ! i))}"
proof -
  assume r: "remove_duplicates xs = Inr ys"
  then have ok: "list_all item_ok xs" and ys: "ys = kept {} xs"
    by (simp_all add: remove_duplicates_kept)
  have u: "has_url (xs ! i) \<longleftrightarrow> (\<exists>k. url_key (xs ! i) = Some k)" if "i < length xs" for i
    using ok that by (simp add: item_ok_has_url list_all_length)
  have "{i. i < length xs \<and> has_url (xs ! i) \<and> (\<forall>j<i. url_key (xs ! j) \<noteq> url_key (xs ! i))}
      = {i. i < length xs \<and> (\<exists>k. url_key (xs ! i) = Some k \<and> k \<notin> {}) \<and>
            (\<forall>j<i. url_key (xs ! j) \<noteq> url_key (xs ! i))}"
    using u by auto
  then have "ys = nths xs {i. i < length xs \<and> has_url (xs ! i) \<and>
                    (\<forall>j<i. url_key (xs ! j) \<noteq> url_key (xs ! i))}"
    unfolding ys by (simp only: kept_nths[of "{}" xs])
  moreover have "\<forall>y \<in> set ys. has_url y"
    using has_url_kept[OF ok] ys by blast
  ultimately show ?thesis by blast
qed

theorem remove_duplicates_first_occurrences_witness:
  "remove_duplicates
     [PDict [(''url'', PStr ''a''), (''post_id'', PStr ''1'')],
      PDict [(''url'', PNone), (''post_id'', PStr ''2'')],
      PDict [(''url'', PStr ''a''), (''post_id'', PStr ''3'')]]
   = Inr [PDict [(''url'', PStr ''a''), (''post_id'', PStr ''1'')]] \<and>
   has_url (PDict [(''url'', PStr ''a''), (''post_id'', PStr ''1'')])"
  using remove_duplicates_first_occurrences
    [of "[PDict [(''url'', PStr ''a''), (''post_id'', PStr ''1'')],
          PDict [(''url'', PNone), (''post_id'', PStr ''2'')],
          PDict [(''url'', PStr ''a''), (''post_id'', PStr ''3'')]]"
        "[PDict [(''url'', PStr ''a''), (''post_id'', PStr ''1'')]]"]
  by (simp add: remove_duplicates_def)

text \<open>
  C9. \<^verbatim>\<open>_remove_duplicates\<close> is idempotent: running it on its own output gives that
  output again (and an input on which it raises makes the composition raise alike). It
  preserves order: the output is a subsequence of the input, and its urls are the
  distinct urls of the input in the order of their first occurrence.
\<close>

theorem remove_duplicates_idempotent_ordered:
  "(case remove_duplicates xs of Inl e \<Rightarrow> Inl e | Inr ys \<Rightarrow> remove_duplicates ys)
     = remove_duplicates xs \<and>
   (\<forall>ys. remove_duplicates xs = Inr ys \<longrightarrow>
      subseq ys xs \<and>
      distinct (map url_key ys) \<and>
      map url_key ys = rev (remdups (rev (filter (\<lambda>k. k \<noteq> None) (map url_key xs)))))"
proof -
  have "remove_duplicates ys = Inr ys \<and> subseq ys xs \<and> distinct (map url_key ys) \<and>
      map url_key ys = rev (remdups (rev (filter (\<lambda>k. k \<noteq> None) (map url_key xs))))"
    if r: "remove_duplicates xs = Inr ys" for ys
  proof -
    from r have ok: "list_all item_ok xs" and ys: "ys = kept {} xs"
      by (simp_all add: remove_duplicates_kept)
    have k: "map url_key ys = rev (remdups (rev (filter (\<lambda>k. k \<noteq> None) (map url_key xs))))"
      unfolding ys by (simp add: kept_keys)
    have "remove_duplicates ys = Inr ys"
      unfolding ys by (simp add: remove_duplicates_kept item_ok_kept[OF ok] kept_idem)
    moreover have "subseq ys xs" unfolding ys by (rule kept_subseq)
    moreover have "distinct (map url_key ys)" unfolding k by simp
    ultimately show ?thesis using k by blast
  qed
  then show ?thesis by (cases "remove_duplicates xs") auto
qed

theorem remove_duplicates_idempotent_ordered_witness:
  "remove_duplicates
     [PDict [(''url'', PStr ''b'')], PDict [(''url'', PStr ''a'')],
      PDict [(''url'', PStr ''b''), (''post_id'', PStr ''3'')]]
   = Inr [PDict [(''url'', PStr ''b'')], PDict [(''url'', PStr ''a'')]] \<and>
   remove_duplicates [PDict [(''url'', PStr ''b'')], PDict [(''url'', PStr ''a'')]]
   = Inr [PDict [(''url'', PStr ''b'')], PDict [(''url'', PStr ''a'')]] \<and>
   map url_key [PDict [(''url'', PStr ''b'')], PDict [(''url'', PStr ''a'')]]
   = [Some (KStr ''b''), Some (KStr ''a'')]"
  using remove_duplicates_idempotent_ordered
    [of "[PDict [(''url'', PStr ''b'')], PDict [(''url'', PStr ''a'')],
          PDict [(''url'', PStr ''b''), (''post_id'', PStr ''3'')]]"]
  by (simp add: remove_duplicates_def url_key_def)

section \<open>The orchestrator: urls and lengths\<close>

lemma carousel_loop_Cons:
  "carousel_loop vs idx mi (c # rest) acc =
     (case carousel_loop vs idx mi [c] acc of
        (Some e, a) \<Rightarrow> (Some e, a)
      | (None, a) \<Rightarrow> carousel_loop vs idx (mi + 1) rest a)"
  by (simp split: sum.splits)

lemma carousel_child_total:
  "total (snd (carousel_loop vs idx mi [c] acc)) \<le> total acc + 1"
proof (cases "detect_media_type c")
  case (Inl e)
  then show ?thesis by simp
next
  case (Inr t)
  consider "t = ''image''" | "t = ''video''" | "t \<noteq> ''image''" "t \<noteq> ''video''"
    by blast
  then show ?thesis
  proof cases
    case 1
    with Inr show ?thesis
      by (cases "extract_image_data c idx mi") (simp_all add: total_def)
  next
    case 2
    show ?thesis
    proof (cases "py_get vs ''download_videos'' (PBool True)")
      case (Inl e)
      with Inr 2 show ?thesis by simp
    next
      case dv: (Inr download_videos)
      with Inr 2 show ?thesis
        by (cases "extract_video_data c idx vs mi") (simp_all add: total_def)
    qed
  next
    case 3
    with Inr show ?thesis by simp
  qed
qed

lemma carousel_loop_total:
  "total (snd (carousel_loop vs idx mi items acc)) \<le> total acc + length items"
proof (induction items arbitrary: mi acc)
  case Nil
  show ?case by simp
next
  case (Cons c rest)
  obtain r a where s: "carousel_loop vs idx mi [c] acc = (r, a)"
    by (cases "carousel_loop vs idx mi [c] acc")
  have a: "total a \<le> total acc + 1"
    using carousel_child_total[of vs idx mi c acc] s by simp
  show ?case
  proof (cases r)
    case None
    with s have "carousel_loop vs idx mi (c # rest) acc = carousel_loop vs idx (mi + 1) rest a"
      using carousel_loop_Cons[of vs idx mi c rest acc] by simp
    with Cons.IH[of "mi + 1" a] a show ?thesis by simp
  next
    case (Some e)
    with s have "carousel_loop vs idx mi (c # rest) acc = (Some e, a)"
      using carousel_loop_Cons[of vs idx mi c rest acc] by simp
    with a show ?thesis by simp
  qed
qed

lemma post_body_total:
  "total (snd (post_body post vs idx acc)) \<le> total acc + post_media_count post"
proof (cases "py_get post ''node'' (PDict [])")
  case (Inl e)
  then show ?thesis by (simp add: post_body_def)
next
  case node: (Inr node)
  show ?thesis
  proof (cases "detect_media_type node")
    case (Inl e)
    with node show ?thesis by (simp add: post_body_def)
  next
    case (Inr media_type)
    show ?thesis
    proof (cases "media_type = ''carousel''")
      case True
      with node Inr show ?thesis
        using carousel_loop_total[of vs idx 1 _ acc]
        by (simp add: post_body_def post_media_count_def split: sum.splits)
    next
      case False
      with node Inr show ?thesis
        by (simp add: post_body_def post_media_count_def total_def split: sum.splits)
    qed
  qed
qed

lemma posts_loop_total:
  "total (posts_loop vs posts idx acc) \<le> total acc + expanded_media_count posts"
proof (induction posts arbitrary: idx acc)
  case Nil
  show ?case by (simp add: expanded_media_count_def)
next
  case (Cons post posts)
  have "total (posts_loop vs (post # posts) idx acc)
      \<le> total (snd (post_body post vs idx acc)) + expanded_media_count posts"
    using Cons.IH by simp
  also have "\<dots> \<le> total acc + post_media_count post + expanded_media_count posts"
    using post_body_total[of post vs idx acc] by simp
  finally show ?case by (simp add: expanded_media_count_def)
qed

lemma length_kept: "length (kept seen xs) \<le> length xs"
  using kept_subseq[of seen xs] by (rule list_emb_length)

text \<open>
  C3. Whenever \<^verbatim>\<open>extract_media_from_posts\<close> returns a manifest, for any posts and
  any settings, every descriptor of both lists has a non-empty (truthy) url, and the two
  lists together are no longer than the carousel-expanded media count of the input.
\<close>

theorem extract_media_urls_and_lengths:
  "extract_media_from_posts posts video_settings = Inr manifest \<Longrightarrow>
   \<exists>unique_images unique_videos.
     manifest = PDict [(''images'', PList unique_images), (''videos'', PList unique_videos)] \<and>
     (\<forall>d \<in> set unique_images \<union> set unique_videos. has_url d) \<and>
     length unique_images + length unique_videos \<le> expanded_media_count posts"
proof -
  assume r: "extract_media_from_posts posts video_settings = Inr manifest"
  define acc where "acc = posts_loop video_settings posts 1 \<lparr>images = [], videos = []\<rparr>"
  from r obtain ui uv where ui: "remove_duplicates (images acc) = Inr ui"
    and uv: "remove_duplicates (videos acc) = Inr uv"
    and m: "manifest = PDict [(''images'', PList ui), (''videos'', PList uv)]"
    by (auto simp: extract_media_from_posts_def acc_def Let_def split: sum.splits)
  from ui have oki: "list_all item_ok (images acc)" and ki: "ui = kept {} (images acc)"
    by (simp_all add: remove_duplicates_kept)
  from uv have okv: "list_all item_ok (videos acc)" and kv: "uv = kept {} (videos acc)"
    by (simp_all add: remove_duplicates_kept)
  have "\<forall>d \<in> set ui \<union> set uv. has_url d"
    using has_url_kept[OF oki] has_url_kept[OF okv] ki kv by blast
  moreover have "length ui + length uv \<le> expanded_media_count posts"
  proof -
    have "length ui + length uv \<le> total acc"
      unfolding ki kv total_def using length_kept[of "{}" "images acc"] length_kept[of "{}" "videos acc"]
      by simp
    also have "\<dots> \<le> expanded_media_count posts"
      unfolding acc_def
      using posts_loop_total[of video_settings posts 1 "\<lparr>images = [], videos = []\<rparr>"]
      by (simp add: total_def)
    finally show ?thesis .
  qed
  ultimately show ?thesis using m by blast
qed

theorem extract_media_urls_and_lengths_witness:
  "extract_media_from_posts
     [PDict [(''node'', PDict [(''media_type'', PInt 1), (''pk'', PStr ''p1''),
        (''image_versions2'', PDict [(''candidates'', PList [PDict [(''url'', PStr ''u'')]])])])],
      PDict [(''node'', PDict [(''media_type'', PInt 1), (''pk'', PStr ''p2'')])]]
     (PDict [(''download_videos'', PBool True)])
   = Inr (PDict [(''images'',
             PList [PDict [(''url'', PStr ''u''), (''post_id'', PStr ''p1''),
                           (''type'', PStr ''image''), (''width'', PNone), (''height'', PNone),
                           (''post_index'', PInt 1), (''media_index'', PInt 1)]]),
           (''videos'', PList [])]) \<and>
   has_url (PDict [(''url'', PStr ''u''), (''post_id'', PStr ''p1''),
                   (''type'', PStr ''image''), (''width'', PNone), (''height'', PNone),
                   (''post_index'', PInt 1), (''media_index'', PInt 1)]) \<and>
   (1::nat) \<le> expanded_media_count
     [PDict [(''node'', PDict [(''media_type'', PInt 1), (''pk'', PStr ''p1''),
        (''image_versions2'', PDict [(''candidates'', PList [PDict [(''url'', PStr ''u'')]])])])],
      PDict [(''node'', PDict [(''media_type'', PInt 1), (''pk'', PStr ''p2'')])]]"
proof -
  have e: "extract_media_from_posts
     [PDict [(''node'', PDict [(''media_type'', PInt 1), (''pk'', PStr ''p1''),
        (''image_versions2'', PDict [(''candidates'', PList [PDict [(''url'', PStr ''u'')]])])])],
      PDict [(''node'', PDict [(''media_type'', PInt 1), (''pk'', PStr ''p2'')])]]
     (PDict [(''download_videos'', PBool True)])
   = Inr (PDict [(''images'',
             PList [PDict [(''url'', PStr ''u''), (''post_id'', PStr ''p1''),
                           (''type'', PStr ''image''), (''width'', PNone), (''height'', PNone),
                           (''post_index'', PInt 1), (''media_index'', PInt 1)]]),
           (''videos'', PList [])])"
    by (simp add: extract_media_from_posts_def post_body_def detect_media_type_def
        literal_get_def extract_image_data_def remove_duplicates_def)
  show ?thesis
    using extract_media_urls_and_lengths[OF e] e by auto
qed

section \<open>The orchestrator: skipped posts\<close>

lemma carousel_loop_single:
  "carousel_loop vs idx mi [c] acc =
     (case detect_media_type c of
        Inl e \<Rightarrow> (Some e, acc)
      | Inr carousel_type \<Rightarrow>
          if carousel_type = ''image'' then
            (case extract_image_data c idx mi of
               Inl e \<Rightarrow> (Some e, acc)
             | Inr image_data \<Rightarrow>
                 (None, if truthy image_data then acc\<lparr>images := images acc @ [image_data]\<rparr> else acc))
          else if carousel_type = ''video'' then
            (case py_get vs ''download_videos'' (PBool True) of
               Inl e \<Rightarrow> (Some e, acc)
             | Inr download_videos \<Rightarrow>
                 if truthy download_videos then
                   (case extract_video_data c idx vs mi of
                      Inl e \<Rightarrow> (Some e, acc)
                    | Inr video_data \<Rightarrow>
                        (None, if truthy video_data then acc\<lparr>videos := videos acc @ [video_data]\<rparr> else acc))
                 else (None, acc))
          else (None, acc))"
  by (simp split: sum.splits)

lemma posts_loop_append:
  "posts_loop vs (xs @ ys) i acc = posts_loop vs ys (i + int (length xs)) (posts_loop vs xs i acc)"
  by (induction xs arbitrary: i acc) (simp_all add: add.assoc)

lemma carousel_loop_append:
  "carousel_loop vs idx mi (xs @ ys) acc =
     (case carousel_loop vs idx mi xs acc of
        (Some e, a) \<Rightarrow> (Some e, a)
      | (None, a) \<Rightarrow> carousel_loop vs idx (mi + int (length xs)) ys a)"
proof (induction xs arbitrary: mi acc)
  case Nil
  show ?case by simp
next
  case (Cons c xs)
  obtain r a where s: "carousel_loop vs idx mi [c] acc = (r, a)"
    by (cases "carousel_loop vs idx mi [c] acc")
  have n: "mi + int (length (c # xs)) = mi + 1 + int (length xs)" by simp
  show ?case
  proof (cases r)
    case None
    with s have 1: "carousel_loop vs idx mi (c # zs) acc = carousel_loop vs idx (mi + 1) zs a" for zs
      using carousel_loop_Cons[of vs idx mi c zs acc] by (simp del: carousel_loop.simps)
    have "carousel_loop vs idx mi ((c # xs) @ ys) acc = carousel_loop vs idx (mi + 1) (xs @ ys) a"
      using 1[of "xs @ ys"] by (simp del: carousel_loop.simps)
    also have "\<dots> = (case carousel_loop vs idx (mi + 1) xs a of
        (Some e, a) \<Rightarrow> (Some e, a)
      | (None, a) \<Rightarrow> carousel_loop vs idx (mi + 1 + int (length xs)) ys a)"
      by (rule Cons.IH)
    finally show ?thesis unfolding n 1[of xs] .
  next
    case (Some e)
    with s have 1: "carousel_loop vs idx mi (c # zs) acc = (Some e, a)" for zs
      using carousel_loop_Cons[of vs idx mi c zs acc] by (simp del: carousel_loop.simps)
    have "carousel_loop vs idx mi ((c # xs) @ ys) acc = (Some e, a)"
      using 1[of "xs @ ys"] by (simp del: carousel_loop.simps)
    then show ?thesis unfolding 1[of xs] by simp
  qed
qed

lemma carousel_child_raises:
  "fst (carousel_loop vs idx mi [c] acc) = Some e \<Longrightarrow> carousel_loop vs idx mi [c] acc = (Some e, acc)"
  unfolding carousel_loop_single
  by (auto split: sum.splits if_splits)

lemma post_body_unrecognized:
  "unrecognized_type post \<Longrightarrow> post_body post vs i acc = (None, acc)"
proof -
  assume u: "unrecognized_type post"
  then obtain node where n: "py_get post ''node'' (PDict []) = Inr node"
    and d: "detect_media_type node = Inr ''unknown''"
    by (auto simp: unrecognized_type_def split: sum.splits)
  show ?thesis
    unfolding post_body_def by (simp add: n d)
qed

lemma post_body_raises:
  "fst (post_body post vs i acc) \<noteq> None \<Longrightarrow> \<not> is_carousel post \<Longrightarrow>
   snd (post_body post vs i acc) = acc"
proof (cases "py_get post ''node'' (PDict [])")
  case (Inl e)
  then show ?thesis by (simp add: post_body_def)
next
  case node: (Inr node)
  assume f: "fst (post_body post vs i acc) \<noteq> None" and nc: "\<not> is_carousel post"
  show ?thesis
  proof (cases "detect_media_type node")
    case (Inl e)
    with node show ?thesis by (simp add: post_body_def)
  next
    case (Inr t)
    with nc node have t: "t \<noteq> ''carousel''" by (simp add: is_carousel_def)
    consider "t = ''image''" | "t = ''video''" | "t \<noteq> ''image''" "t \<noteq> ''video''"
      by blast
    then show ?thesis
    proof cases
      case 1
      with node Inr f show ?thesis
        by (cases "extract_image_data node i 1") (simp_all add: post_body_def)
    next
      case 2
      show ?thesis
      proof (cases "py_get vs ''download_videos'' (PBool True)")
        case (Inl e)
        with node Inr 2 show ?thesis by (simp add: post_body_def)
      next
        case dv: (Inr download_videos)
        with node Inr 2 f show ?thesis
          by (cases "extract_video_data node i vs 1") (simp_all add: post_body_def split: if_splits)
      qed
    next
      case 3
      with node Inr t f show ?thesis by (simp add: post_body_def)
    qed
  qed
qed

text \<open>
  C8, as stated, fails: a post whose processing raises can contribute a descriptor. The
  second child of this carousel is \<^verbatim>\<open>None\<close>, so \<^verbatim>\<open>detect_media_type\<close> raises on it
  and the handler ends the post; the descriptor of the first child is already appended.
\<close>

theorem failing_carousel_keeps_earlier_children:
  "is_carousel
     (PDict [(''node'', PDict [(''media_type'', PInt 8), (''pk'', PStr ''c1''),
        (''carousel_media'', PList
           [PDict [(''media_type'', PInt 1),
                   (''image_versions2'', PDict [(''candidates'', PList [PDict [(''url'', PStr ''u1'')]])])],
            PNone])])]) \<and>
   fst (post_body
     (PDict [(''node'', PDict [(''media_type'', PInt 8), (''pk'', PStr ''c1''),
        (''carousel_media'', PList
           [PDict [(''media_type'', PInt 1),
                   (''image_versions2'', PDict [(''candidates'', PList [PDict [(''url'', PStr ''u1'')]])])],
            PNone])])])
     (PDict []) 1 \<lparr>images = [], videos = []\<rparr>) = Some AttributeError \<and>
   extract_media_from_posts
     [PDict [(''node'', PDict [(''media_type'', PInt 8), (''pk'', PStr ''c1''),
        (''carousel_media'', PList
           [PDict [(''media_type'', PInt 1),
                   (''image_versions2'', PDict [(''candidates'', PList [PDict [(''url'', PStr ''u1'')]])])],
            PNone])])]]
     (PDict [])
   = Inr (PDict [(''images'',
             PList [PDict [(''url'', PStr ''u1''), (''post_id'', PStr ''1''),
                           (''type'', PStr ''image''), (''width'', PNone), (''height'', PNone),
                           (''post_index'', PInt 1), (''media_index'', PInt 1)]]),
           (''videos'', PList [])])"
  by (simp add: is_carousel_def extract_media_from_posts_def post_body_def detect_media_type_def
      literal_get_def extract_image_data_def remove_duplicates_def str_int_def digit_char_def)

text \<open>
  C8, amended. A post with an unrecognized media type contributes nothing, and neither
  does a post other than a carousel whose processing raises. A carousel whose processing
  raises at a child keeps the descriptors of the children before it. Every post, whatever
  happens in it, is followed by the next one with \<^verbatim>\<open>post_index\<close> one higher; so in a
  three-post input whose second post contributes nothing for one of these reasons, the
  lists are those of the first post at index 1 followed by the third at index 3.
\<close>

theorem skipped_post:
  "(unrecognized_type post \<longrightarrow> post_body post vs i acc = (None, acc)) \<and>
   (fst (post_body post vs i acc) \<noteq> None \<longrightarrow> \<not> is_carousel post \<longrightarrow>
      snd (post_body post vs i acc) = acc) \<and>
   (carousel_loop vs i mi children_before acc = (None, acc1) \<longrightarrow>
    fst (carousel_loop vs i (mi + int (length children_before)) [child] acc1) = Some e \<longrightarrow>
      carousel_loop vs i mi (children_before @ child # children_after) acc = (Some e, acc1)) \<and>
   posts_loop vs (posts_before @ post # posts_after) i acc =
     posts_loop vs posts_after (i + int (length posts_before) + 1)
       (snd (post_body post vs (i + int (length posts_before)) (posts_loop vs posts_before i acc))) \<and>
   (unrecognized_type second_post \<or>
      fst (post_body second_post vs 2 (snd (post_body first_post vs 1 acc))) \<noteq> None \<and> \<not> is_carousel second_post \<longrightarrow>
    posts_loop vs [first_post, second_post, third_post] 1 acc =
      snd (post_body third_post vs 3 (snd (post_body first_post vs 1 acc))))"
proof -
  have a: "unrecognized_type post \<longrightarrow> post_body post vs i acc = (None, acc)"
    using post_body_unrecognized[of post vs i acc] by blast
  have b: "fst (post_body post vs i acc) \<noteq> None \<longrightarrow> \<not> is_carousel post \<longrightarrow>
      snd (post_body post vs i acc) = acc"
    using post_body_raises[of post vs i acc] by blast
  have c: "carousel_loop vs i mi children_before acc = (None, acc1) \<longrightarrow>
    fst (carousel_loop vs i (mi + int (length children_before)) [child] acc1) = Some e \<longrightarrow>
      carousel_loop vs i mi (children_before @ child # children_after) acc = (Some e, acc1)"
  proof (intro impI)
    assume 1: "carousel_loop vs i mi children_before acc = (None, acc1)"
      and 2: "fst (carousel_loop vs i (mi + int (length children_before)) [child] acc1) = Some e"
    have "carousel_loop vs i mi (children_before @ child # children_after) acc
        = carousel_loop vs i (mi + int (length children_before)) (child # children_after) acc1"
      unfolding carousel_loop_append[of vs i mi children_before "child # children_after" acc] 1
      by simp
    also have "\<dots> = (Some e, acc1)"
      unfolding carousel_loop_Cons[of vs i "mi + int (length children_before)" child children_after acc1]
        carousel_child_raises[OF 2]
      by simp
    finally show "carousel_loop vs i mi (children_before @ child # children_after) acc = (Some e, acc1)" .
  qed
  have p: "posts_loop vs (posts_before @ post # posts_after) i acc =
     posts_loop vs posts_after (i + int (length posts_before) + 1)
       (snd (post_body post vs (i + int (length posts_before)) (posts_loop vs posts_before i acc)))"
    by (simp add: posts_loop_append)
  have t: "unrecognized_type second_post \<or>
      fst (post_body second_post vs 2 (snd (post_body first_post vs 1 acc))) \<noteq> None \<and> \<not> is_carousel second_post \<longrightarrow>
    posts_loop vs [first_post, second_post, third_post] 1 acc =
      snd (post_body third_post vs 3 (snd (post_body first_post vs 1 acc)))"
  proof
    assume h: "unrecognized_type second_post \<or>
      fst (post_body second_post vs 2 (snd (post_body first_post vs 1 acc))) \<noteq> None \<and> \<not> is_carousel second_post"
    have "snd (post_body second_post vs 2 (snd (post_body first_post vs 1 acc))) = snd (post_body first_post vs 1 acc)"
      using h post_body_unrecognized[of second_post vs 2 "snd (post_body first_post vs 1 acc)"]
        post_body_raises[of second_post vs 2 "snd (post_body first_post vs 1 acc)"]
      by auto
    then show "posts_loop vs [first_post, second_post, third_post] 1 acc =
      snd (post_body third_post vs 3 (snd (post_body first_post vs 1 acc)))"
      by simp
  qed
  from a b c p t show ?thesis by (intro conjI)
qed


theorem skipped_post_witness:
  "unrecognized_type (PDict [(''node'', PDict [(''media_type'', PInt 5), (''pk'', PStr ''b'')])]) \<and>
   extract_media_from_posts
     [PDict [(''node'', PDict [(''media_type'', PInt 1), (''pk'', PStr ''a''),
        (''image_versions2'', PDict [(''candidates'', PList [PDict [(''url'', PStr ''ua'')]])])])],
      PDict [(''node'', PDict [(''media_type'', PInt 5), (''pk'', PStr ''b'')])],
      PDict [(''node'', PDict [(''media_type'', PInt 1), (''pk'', PStr ''c''),
        (''image_versions2'', PDict [(''candidates'', PList [PDict [(''url'', PStr ''uc'')]])])])]]
     (PDict [])
   = Inr (PDict [(''images'',
             PList [PDict [(''url'', PStr ''ua''), (''post_id'', PStr ''a''),
                           (''type'', PStr ''image''), (''width'', PNone), (''height'', PNone),
                           (''post_index'', PInt 1), (''media_index'', PInt 1)],
                    PDict [(''url'', PStr ''uc''), (''post_id'', PStr ''c''),
                           (''type'', PStr ''image''), (''width'', PNone), (''height'', PNone),
                           (''post_index'', PInt 3), (''media_index'', PInt 1)]]),
           (''videos'', PList [])])"
proof -
  let ?p1 = "PDict [(''node'', PDict [(''media_type'', PInt 1), (''pk'', PStr ''a''),
        (''image_versions2'', PDict [(''candidates'', PList [PDict [(''url'', PStr ''ua'')]])])])]"
  let ?p2 = "PDict [(''node'', PDict [(''media_type'', PInt 5), (''pk'', PStr ''b'')])]"
  let ?p3 = "PDict [(''node'', PDict [(''media_type'', PInt 1), (''pk'', PStr ''c''),
        (''image_versions2'', PDict [(''candidates'', PList [PDict [(''url'', PStr ''uc'')]])])])]"
  let ?acc = "\<lparr>images = [], videos = []\<rparr>"
  have u: "unrecognized_type ?p2"
    by (simp add: unrecognized_type_def detect_media_type_def literal_get_def)
  have "posts_loop (PDict []) [?p1, ?p2, ?p3] 1 ?acc
      = snd (post_body ?p3 (PDict []) 3 (snd (post_body ?p1 (PDict []) 1 ?acc)))"
    using skipped_post[where second_post = ?p2 and first_post = ?p1 and third_post = ?p3
        and vs = "PDict []" and acc = ?acc] u
    by blast
  then have "extract_media_from_posts [?p1, ?p2, ?p3] (PDict [])
      = Inr (PDict [(''images'',
             PList [PDict [(''url'', PStr ''ua''), (''post_id'', PStr ''a''),
                           (''type'', PStr ''image''), (''width'', PNone), (''height'', PNone),
                           (''post_index'', PInt 1), (''media_index'', PInt 1)],
                    PDict [(''url'', PStr ''uc''), (''post_id'', PStr ''c''),
                           (''type'', PStr ''image''), (''width'', PNone), (''height'', PNone),
                           (''post_index'', PInt 3), (''media_index'', PInt 1)]]),
           (''videos'', PList [])])"
    unfolding extract_media_from_posts_def
    by (simp add: post_body_def detect_media_type_def literal_get_def extract_image_data_def
        remove_duplicates_def del: posts_loop.simps)
  with u show ?thesis by blast
qed

section \<open>The orchestrator: carousel expansion\<close>

lemma url_key_truthy: "url_key d \<noteq> None \<Longrightarrow> truthy d"
  by (cases d) (auto simp: url_key_def split: if_splits)

lemma url_key_item_ok: "url_key d \<noteq> None \<Longrightarrow> item_ok d"
  by (auto simp: url_key_def item_ok_def split: sum.splits if_splits)

lemma extract_image_data_indices:
  "extract_image_data c i m = Inr d \<Longrightarrow> truthy d \<Longrightarrow>
   py_get d ''post_index'' PNone = Inr (PInt i) \<and> py_get d ''media_index'' PNone = Inr (PInt m)"
  by (auto simp: extract_image_data_def split: sum.splits if_splits)

lemma extract_video_data_indices:
  "extract_video_data c i vs m = Inr d \<Longrightarrow> truthy d \<Longrightarrow>
   py_get d ''post_index'' PNone = Inr (PInt i) \<and> py_get d ''media_index'' PNone = Inr (PInt m)"
  by (auto simp: extract_video_data_def split: sum.splits if_splits)

lemma carousel_child_yields:
  assumes dv: "py_get vs ''download_videos'' (PBool True) = Inr download_videos"
    "truthy download_videos"
    and y: "child_yields vs idx c mi d" and t: "truthy d"
  shows "carousel_loop vs idx mi [c] acc =
     (None, acc\<lparr>images := images acc @ (if image_child c then [d] else []),
              videos := videos acc @ (if video_child c then [d] else [])\<rparr>)"
proof (cases "image_child c")
  case True
  with y have e: "extract_image_data c idx mi = Inr d" and nv: "\<not> video_child c"
    by (auto simp: child_yields_def image_child_def video_child_def)
  from True have dt: "detect_media_type c = Inr ''image''" by (simp add: image_child_def)
  show ?thesis
    unfolding carousel_loop_single by (simp add: dt e t True nv)
next
  case False
  with y have e: "extract_video_data c idx vs mi = Inr d" and v: "video_child c"
    by (auto simp: child_yields_def)
  from v have dt: "detect_media_type c = Inr ''video''" by (simp add: video_child_def)
  show ?thesis
    unfolding carousel_loop_single by (simp add: dt e t dv False v)
qed

lemma carousel_loop_yields:
  assumes dv: "py_get vs ''download_videos'' (PBool True) = Inr download_videos"
    "truthy download_videos"
    and len: "length ds = length cs"
    and y: "\<forall>k<length cs. child_yields vs idx (cs ! k) (int k + 1) (ds ! k)"
    and t: "\<forall>d \<in> set ds. truthy d"
  shows "m \<le> length cs \<Longrightarrow>
     carousel_loop vs idx (int m + 1) (drop m cs) acc =
       (None, acc\<lparr>images := images acc @ map ((!) ds) (filter (\<lambda>k. image_child (cs ! k)) [m..<length cs]),
                videos := videos acc @ map ((!) ds) (filter (\<lambda>k. video_child (cs ! k)) [m..<length cs])\<rparr>)"
proof (induction "length cs - m" arbitrary: m acc)
  case 0
  then have "m = length cs" by simp
  then show ?case by simp
next
  case (Suc n)
  then have m: "m < length cs" by simp
  let ?c = "cs ! m" and ?d = "ds ! m"
  have d: "drop m cs = ?c # drop (Suc m) cs"
    using m by (simp add: Cons_nth_drop_Suc)
  have u: "[m..<length cs] = m # [Suc m..<length cs]"
    using m by (simp add: upt_conv_Cons)
  have td: "truthy ?d" using t m len by simp
  have cy: "child_yields vs idx ?c (int m + 1) ?d" using y m by blast
  let ?acc1 = "acc\<lparr>images := images acc @ (if image_child ?c then [?d] else []),
              videos := videos acc @ (if video_child ?c then [?d] else [])\<rparr>"
  have s: "carousel_loop vs idx (int m + 1) [?c] acc = (None, ?acc1)"
    by (rule carousel_child_yields[OF dv cy td])
  have "carousel_loop vs idx (int m + 1) (drop m cs) acc
      = carousel_loop vs idx (int m + 1 + 1) (drop (Suc m) cs) ?acc1"
    unfolding d carousel_loop_Cons[of vs idx "int m + 1" ?c "drop (Suc m) cs" acc] s by simp
  also have "int m + 1 + 1 = int (Suc m) + 1" by simp
  also have "carousel_loop vs idx (int (Suc m) + 1) (drop (Suc m) cs) ?acc1 =
       (None, ?acc1\<lparr>images := images ?acc1 @ map ((!) ds) (filter (\<lambda>k. image_child (cs ! k)) [Suc m..<length cs]),
                videos := videos ?acc1 @ map ((!) ds) (filter (\<lambda>k. video_child (cs ! k)) [Suc m..<length cs])\<rparr>)"
    using Suc.hyps(2) m by (intro Suc.hyps(1)) simp_all
  finally show ?case unfolding u by simp
qed

lemma filter_by_index:
  "map ((!) xs) (filter (\<lambda>k. P (xs ! k)) [0..<length xs]) = filter P xs"
proof -
  have "filter P xs = filter P (map ((!) xs) [0..<length xs])"
    by (simp add: map_nth)
  also have "\<dots> = map ((!) xs) (filter (P \<circ> (!) xs) [0..<length xs])"
    by (simp only: filter_map)
  finally show ?thesis by (simp add: comp_def)
qed

lemma length_filter_by_index:
  "length (filter (\<lambda>k. P (xs ! k)) [0..<length xs]) = length (filter P xs)"
  using filter_by_index[of xs P, THEN arg_cong, of length] by simp

lemma child_yields_indices:
  "child_yields vs i c m d \<Longrightarrow> truthy d \<Longrightarrow>
   py_get d ''post_index'' PNone = Inr (PInt i) \<and> py_get d ''media_index'' PNone = Inr (PInt m)"
  unfolding child_yields_def
  using extract_image_data_indices[of c i m d] extract_video_data_indices[of c i vs m d]
  by blast

lemma remove_duplicates_distinct:
  "\<forall>d \<in> set xs. url_key d \<noteq> None \<Longrightarrow> distinct (map url_key xs) \<Longrightarrow>
   remove_duplicates xs = Inr xs"
proof -
  assume u: "\<forall>d \<in> set xs. url_key d \<noteq> None" and d: "distinct (map url_key xs)"
  have "list_all item_ok xs"
    using u by (simp add: list_all_iff url_key_item_ok)
  moreover have "kept {} xs = xs"
    using u d by (intro kept_fixed) auto
  ultimately show ?thesis by (simp add: remove_duplicates_kept)
qed

text \<open>
  C1, as stated, fails. In the first input the carousel has a video child followed by an
  image child: the image descriptor has \<^verbatim>\<open>media_index\<close> 2, its position among all the
  children, not 1. In the second the two image children have the same url and one
  descriptor is returned, not two.
\<close>

theorem carousel_media_index_is_child_position:
  "extract_media_from_posts
     [PDict [(''node'', PDict [(''media_type'', PInt 8), (''pk'', PStr ''c''),
        (''carousel_media'', PList
           [PDict [(''media_type'', PInt 2), (''pk'', PStr ''v''),
                   (''video_versions'', PList [PDict [(''type'', PInt 101), (''url'', PStr ''uv'')]])],
            PDict [(''media_type'', PInt 1), (''pk'', PStr ''i''),
                   (''image_versions2'', PDict [(''candidates'', PList [PDict [(''url'', PStr ''ui'')]])])]])])]]
     (PDict [(''download_videos'', PBool True)])
   = Inr (PDict [(''images'',
             PList [PDict [(''url'', PStr ''ui''), (''post_id'', PStr ''i''),
                           (''type'', PStr ''image''), (''width'', PNone), (''height'', PNone),
                           (''post_index'', PInt 1), (''media_index'', PInt 2)]]),
           (''videos'',
             PList [PDict [(''url'', PStr ''uv''), (''post_id'', PStr ''v''),
                           (''type'', PStr ''video''), (''video_type'', PInt 101),
                           (''width'', PNone), (''height'', PNone),
                           (''has_audio'', PBool False), (''product_type'', PStr ''feed''),
                           (''thumbnail_url'', PNone),
                           (''post_index'', PInt 1), (''media_index'', PInt 1)]])]) \<and>
   extract_media_from_posts
     [PDict [(''node'', PDict [(''media_type'', PInt 8), (''pk'', PStr ''c''),
        (''carousel_media'', PList
           [PDict [(''media_type'', PInt 1), (''pk'', PStr ''i1''),
                   (''image_versions2'', PDict [(''candidates'', PList [PDict [(''url'', PStr ''ui'')]])])],
            PDict [(''media_type'', PInt 1), (''pk'', PStr ''i2''),
                   (''image_versions2'', PDict [(''candidates'', PList [PDict [(''url'', PStr ''ui'')]])])]])])]]
     (PDict [(''download_videos'', PBool True)])
   = Inr (PDict [(''images'',
             PList [PDict [(''url'', PStr ''ui''), (''post_id'', PStr ''i1''),
                           (''type'', PStr ''image''), (''width'', PNone), (''height'', PNone),
                           (''post_index'', PInt 1), (''media_index'', PInt 1)]]),
           (''videos'', PList [])])"
  by (simp add: extract_media_from_posts_def post_body_def detect_media_type_def literal_get_def
      extract_image_data_def extract_video_data_def select_best_video_quality_def priority_def
      thumbnail_of_def remove_duplicates_def)

text \<open>
  C1, amended. Take a single carousel post, settings whose \<^verbatim>\<open>download_videos\<close> is
  truthy, and children that are each an image or a video child yielding a descriptor with
  a url, the urls of the image descriptors pairwise distinct and those of the video
  descriptors too. Then the manifest holds exactly one image descriptor per image child
  and one video descriptor per video child, in child order; each has \<^verbatim>\<open>post_index\<close> 1,
  and its \<^verbatim>\<open>media_index\<close> is the 1-based position of its child among all the children
  of the carousel.
\<close>

theorem carousel_expansion:
  assumes node: "py_get post ''node'' (PDict []) = Inr node"
    and car: "detect_media_type node = Inr ''carousel''"
    and cm: "py_get node ''carousel_media'' (PList []) = Inr (PList children)"
    and dv: "py_get video_settings ''download_videos'' (PBool True) = Inr download_videos"
      "truthy download_videos"
    and len: "length descriptors = length children"
    and y: "\<forall>k<length children.
              child_yields video_settings 1 (children ! k) (int k + 1) (descriptors ! k)"
    and u: "\<forall>d \<in> set descriptors. url_key d \<noteq> None"
    and imgs: "image_descriptors =
        map ((!) descriptors) (filter (\<lambda>k. image_child (children ! k)) [0..<length children])"
    and vids: "video_descriptors =
        map ((!) descriptors) (filter (\<lambda>k. video_child (children ! k)) [0..<length children])"
    and di: "distinct (map url_key image_descriptors)"
    and dvid: "distinct (map url_key video_descriptors)"
  shows "extract_media_from_posts [post] video_settings =
       Inr (PDict [(''images'', PList image_descriptors), (''videos'', PList video_descriptors)]) \<and>
     length image_descriptors = length (filter image_child children) \<and>
     length video_descriptors = length (filter video_child children) \<and>
     (\<forall>d \<in> set image_descriptors \<union> set video_descriptors.
        py_get d ''post_index'' PNone = Inr (PInt 1)) \<and>
     map (\<lambda>d. py_get d ''media_index'' PNone) image_descriptors =
       map (\<lambda>k. Inr (PInt (int k + 1))) (filter (\<lambda>k. image_child (children ! k)) [0..<length children]) \<and>
     map (\<lambda>d. py_get d ''media_index'' PNone) video_descriptors =
       map (\<lambda>k. Inr (PInt (int k + 1))) (filter (\<lambda>k. video_child (children ! k)) [0..<length children])"
proof -
  have t: "\<forall>d \<in> set descriptors. truthy d"
    using u url_key_truthy by blast
  have idx: "py_get (descriptors ! k) ''post_index'' PNone = Inr (PInt 1) \<and>
      py_get (descriptors ! k) ''media_index'' PNone = Inr (PInt (int k + 1))"
    if "k < length children" for k
    using child_yields_indices[of video_settings 1 "children ! k" "int k + 1" "descriptors ! k"]
      y t that len by simp
  have loop: "carousel_loop video_settings 1 1 children \<lparr>images = [], videos = []\<rparr> =
      (None, \<lparr>images = image_descriptors, videos = video_descriptors\<rparr>)"
    using carousel_loop_yields[OF dv len y t, of 0 "\<lparr>images = [], videos = []\<rparr>"]
    by (simp add: imgs vids)
  have body: "post_body post video_settings 1 \<lparr>images = [], videos = []\<rparr> =
      (None, \<lparr>images = image_descriptors, videos = video_descriptors\<rparr>)"
    unfolding post_body_def by (simp add: node car cm loop)
  have si: "set image_descriptors \<subseteq> set descriptors"
    and sv: "set video_descriptors \<subseteq> set descriptors"
    using len by (auto simp: imgs vids)
  have ri: "remove_duplicates image_descriptors = Inr image_descriptors"
    using si u di by (intro remove_duplicates_distinct) auto
  have rv: "remove_duplicates video_descriptors = Inr video_descriptors"
    using sv u dvid by (intro remove_duplicates_distinct) auto
  have 1: "extract_media_from_posts [post] video_settings =
       Inr (PDict [(''images'', PList image_descriptors), (''videos'', PList video_descriptors)])"
    unfolding extract_media_from_posts_def by (simp add: body ri rv)
  have 2: "length image_descriptors = length (filter image_child children)"
    unfolding imgs by (simp add: length_filter_by_index)
  have 3: "length video_descriptors = length (filter video_child children)"
    unfolding vids by (simp add: length_filter_by_index)
  have 4: "\<forall>d \<in> set image_descriptors \<union> set video_descriptors.
        py_get d ''post_index'' PNone = Inr (PInt 1)"
    using idx by (auto simp: imgs vids)
  have 5: "map (\<lambda>d. py_get d ''media_index'' PNone) image_descriptors =
       map (\<lambda>k. Inr (PInt (int k + 1))) (filter (\<lambda>k. image_child (children ! k)) [0..<length children])"
    unfolding imgs using idx by simp
  have 6: "map (\<lambda>d. py_get d ''media_index'' PNone) video_descriptors =
       map (\<lambda>k. Inr (PInt (int k + 1))) (filter (\<lambda>k. video_child (children ! k)) [0..<length children])"
    unfolding vids using idx by simp
  from 1 2 3 4 5 6 show ?thesis by (intro conjI)
qed

theorem carousel_expansion_witness:
  "extract_media_from_posts
     [PDict [(''node'', PDict [(''media_type'', PInt 8), (''pk'', PStr ''c''),
        (''carousel_media'', PList
           [PDict [(''media_type'', PInt 2), (''pk'', PStr ''v''),
                   (''video_versions'', PList [PDict [(''type'', PInt 101), (''url'', PStr ''uv'')]])],
            PDict [(''media_type'', PInt 1), (''pk'', PStr ''i''),
                   (''image_versions2'', PDict [(''candidates'', PList [PDict [(''url'', PStr ''ui'')]])])]])])]]
     (PDict [(''download_videos'', PBool True)])
   = Inr (PDict [(''images'',
             PList [PDict [(''url'', PStr ''ui''), (''post_id'', PStr ''i''),
                           (''type'', PStr ''image''), (''width'', PNone), (''height'', PNone),
                           (''post_index'', PInt 1), (''media_index'', PInt 2)]]),
           (''videos'',
             PList [PDict [(''url'', PStr ''uv''), (''post_id'', PStr ''v''),
                           (''type'', PStr ''video''), (''video_type'', PInt 101),
                           (''width'', PNone), (''height'', PNone),
                           (''has_audio'', PBool False), (''product_type'', PStr ''feed''),
                           (''thumbnail_url'', PNone),
                           (''post_index'', PInt 1), (''media_index'', PInt 1)]])])"
proof -
  let ?v = "PDict [(''media_type'', PInt 2), (''pk'', PStr ''v''),
                   (''video_versions'', PList [PDict [(''type'', PInt 101), (''url'', PStr ''uv'')]])]"
  let ?i = "PDict [(''media_type'', PInt 1), (''pk'', PStr ''i''),
                   (''image_versions2'', PDict [(''candidates'', PList [PDict [(''url'', PStr ''ui'')]])])]"
  let ?node = "PDict [(''media_type'', PInt 8), (''pk'', PStr ''c''),
        (''carousel_media'', PList [?v, ?i])]"
  let ?post = "PDict [(''node'', ?node)]"
  let ?vs = "PDict [(''download_videos'', PBool True)]"
  let ?di = "PDict [(''url'', PStr ''ui''), (''post_id'', PStr ''i''),
                           (''type'', PStr ''image''), (''width'', PNone), (''height'', PNone),
                           (''post_index'', PInt 1), (''media_index'', PInt 2)]"
  let ?dv = "PDict [(''url'', PStr ''uv''), (''post_id'', PStr ''v''),
                           (''type'', PStr ''video''), (''video_type'', PInt 101),
                           (''width'', PNone), (''height'', PNone),
                           (''has_audio'', PBool False), (''product_type'', PStr ''feed''),
                           (''thumbnail_url'', PNone),
                           (''post_index'', PInt 1), (''media_index'', PInt 1)]"
  have h1: "py_get ?post ''node'' (PDict []) = Inr ?node" by simp
  have h2: "detect_media_type ?node = Inr ''carousel''"
    by (simp add: detect_media_type_def literal_get_def)
  have h3: "py_get ?node ''carousel_media'' (PList []) = Inr (PList [?v, ?i])" by simp
  have h4: "py_get ?vs ''download_videos'' (PBool True) = Inr (PBool True)" by simp
  have h5: "truthy (PBool True)" by simp
  have h6: "length [?dv, ?di] = length [?v, ?i]" by simp
  have iv: "\<not> image_child ?v" "video_child ?v" "image_child ?i" "\<not> video_child ?i"
    by (simp_all add: image_child_def video_child_def detect_media_type_def literal_get_def)
  have y0: "child_yields ?vs 1 ?v 1 ?dv"
    by (simp add: child_yields_def iv extract_video_data_def select_best_video_quality_def
        priority_def literal_get_def thumbnail_of_def)
  have y1: "child_yields ?vs 1 ?i 2 ?di"
    by (simp add: child_yields_def iv extract_image_data_def)
  have h7: "\<forall>k<length [?v, ?i]. child_yields ?vs 1 ([?v, ?i] ! k) (int k + 1) ([?dv, ?di] ! k)"
    using y0 y1 by (simp add: less_Suc_eq nth_Cons')
  have h8: "\<forall>d \<in> set [?dv, ?di]. url_key d \<noteq> None"
    by (simp add: url_key_def)
  have f1: "filter (\<lambda>k. image_child ([?v, ?i] ! k)) [0..<length [?v, ?i]] = [1]"
    using iv by (simp add: upt_rec)
  have f2: "filter (\<lambda>k. video_child ([?v, ?i] ! k)) [0..<length [?v, ?i]] = [0]"
    using iv by (simp add: upt_rec)
  have h9: "[?di] = map ((!) [?dv, ?di]) (filter (\<lambda>k. image_child ([?v, ?i] ! k)) [0..<length [?v, ?i]])"
    unfolding f1 by simp
  have h10: "[?dv] = map ((!) [?dv, ?di]) (filter (\<lambda>k. video_child ([?v, ?i] ! k)) [0..<length [?v, ?i]])"
    unfolding f2 by simp
  have h11: "distinct (map url_key [?di])" by simp
  have h12: "distinct (map url_key [?dv])" by simp
  from carousel_expansion[OF h1 h2 h3 h4 h5 h6 h7 h8 h9 h10 h11 h12]
  show ?thesis by blast
qed

section \<open>The paginator\<close>

lemma truthy_iter: "truthy x \<Longrightarrow> py_iter x = Inr es \<Longrightarrow> es \<noteq> []"
  by (cases x) auto

lemma edges_of_Nil:
  "edges_of t = Some [] \<longleftrightarrow> (\<exists>edges. py_get t ''edges'' (PList []) = Inr edges \<and> \<not> truthy edges)"
  by (auto simp: edges_of_def split: sum.splits dest: truthy_iter)

lemma fetch_page_read:
  "fetch_page post st =
     (let r = post (page st) (after_cursor st);
          st1 = st\<lparr>requests := requests st @ [after_cursor st]\<rparr>;
          st2 = st1\<lparr>all_posts := all_posts st @ appended_edges r\<rparr>
      in case read_page r of
           None \<Rightarrow> (False, st2)
         | Some (es, has_next_page, end_cursor) \<Rightarrow>
             if es = [] then (False, st1)
             else (truthy has_next_page \<and> truthy end_cursor, st2\<lparr>after_cursor := end_cursor\<rparr>))"
proof (cases "timeline_data_of (post (page st) (after_cursor st))")
  case None
  then show ?thesis
    by (auto simp: fetch_page_def read_page_def appended_edges_def timeline_data_of_def Let_def
        split: sum.splits option.splits if_splits)
next
  case (Some t)
  then obtain resp data d where r: "post (page st) (after_cursor st) = Inr resp"
    "status_code resp = 200" "json_body resp = Some data"
    "py_get data ''data'' (PDict []) = Inr d" "py_get d timeline_key (PDict []) = Inr t"
    by (auto simp: timeline_data_of_def split: sum.splits option.splits if_splits)
  show ?thesis
  proof (cases "py_get t ''edges'' (PList [])")
    case (Inl x)
    then have "edges_of t = None" by (simp add: edges_of_def)
    with Some r Inl show ?thesis
      by (simp add: fetch_page_def read_page_def appended_edges_def Let_def)
  next
    case e: (Inr edges)
    show ?thesis
    proof (cases "truthy edges")
      case False
      with e have "edges_of t = Some []" by (simp add: edges_of_def)
      with Some r e False show ?thesis
        by (simp add: fetch_page_def read_page_def appended_edges_def Let_def split: sum.splits)
    next
      case True
      show ?thesis
      proof (cases "py_iter edges")
        case (Inl x)
        with e True have "edges_of t = None" by (simp add: edges_of_def)
        with Some r e True Inl show ?thesis
          by (simp add: fetch_page_def read_page_def appended_edges_def Let_def)
      next
        case (Inr es)
        with e True have eo: "edges_of t = Some es" by (simp add: edges_of_def)
        have ne: "es \<noteq> []" using True Inr by (rule truthy_iter)
        from Some r e True Inr eo ne show ?thesis
          by (auto simp: fetch_page_def read_page_def appended_edges_def Let_def split: sum.splits)
      qed
    qed
  qed
qed

declare fetch_loop.simps [simp del]

lemma fetch_page_continuing:
  "continuing_page (post (page st) (after_cursor st)) es c \<Longrightarrow>
   fetch_page post st =
     (True, st\<lparr>all_posts := all_posts st @ es, after_cursor := c,
              requests := requests st @ [after_cursor st]\<rparr>)"
  unfolding fetch_page_read
  by (auto simp: continuing_page_def appended_edges_def read_page_def Let_def
      split: option.splits sum.splits)

lemma read_page_appended: "read_page r = Some (es, h, c) \<Longrightarrow> appended_edges r = es"
  by (auto simp: read_page_def appended_edges_def split: option.splits sum.splits)

lemma fetch_loop_step:
  "page st \<le> max_pages \<Longrightarrow> fetch_page post st = (True, st') \<Longrightarrow>
   fetch_loop post max_pages st = fetch_loop post max_pages (st'\<lparr>page := page st' + 1\<rparr>)"
  by (subst fetch_loop.simps) simp

lemma fetch_loop_stop:
  "page st \<le> max_pages \<Longrightarrow> fetch_page post st = (False, st') \<Longrightarrow>
   fetch_loop post max_pages st = st'"
  by (subst fetch_loop.simps) simp

lemma fetch_loop_done:
  "\<not> page st \<le> max_pages \<Longrightarrow> fetch_loop post max_pages st = st"
  by (subst fetch_loop.simps) simp

lemma fetch_loop_scripted:
  "scripted post (page st) (after_cursor st) pages \<Longrightarrow>
   page st + int (length pages) \<le> max_pages + 1 \<Longrightarrow>
   fetch_loop post max_pages st =
     fetch_loop post max_pages
       (st\<lparr>all_posts := all_posts st @ concat (map fst pages),
           after_cursor := last_cursor (after_cursor st) pages,
           page := page st + int (length pages),
           requests := requests st @ sent_cursors (after_cursor st) pages\<rparr>)"
proof (induction pages arbitrary: st)
  case Nil
  show ?case by (simp add: last_cursor_def sent_cursors_def)
next
  case (Cons pg pages)
  obtain es c where pg: "pg = (es, c)" by (cases pg)
  from Cons.prems(1) pg have g: "continuing_page (post (page st) (after_cursor st)) es c"
    and s: "scripted post (page st + 1) c pages" by simp_all
  let ?st1 = "st\<lparr>all_posts := all_posts st @ es, after_cursor := c,
              requests := requests st @ [after_cursor st]\<rparr>"
  let ?st2 = "?st1\<lparr>page := page ?st1 + 1\<rparr>"
  have le: "page st \<le> max_pages" using Cons.prems(2) by simp
  have 1: "fetch_loop post max_pages st = fetch_loop post max_pages ?st2"
    using fetch_loop_step[OF le fetch_page_continuing[of post st es c, OF g]] .
  have 2: "fetch_loop post max_pages ?st2 =
     fetch_loop post max_pages
       (?st2\<lparr>all_posts := all_posts ?st2 @ concat (map fst pages),
           after_cursor := last_cursor (after_cursor ?st2) pages,
           page := page ?st2 + int (length pages),
           requests := requests ?st2 @ sent_cursors (after_cursor ?st2) pages\<rparr>)"
    using s Cons.prems(2) by (intro Cons.IH) simp_all
  have 3: "?st2\<lparr>all_posts := all_posts ?st2 @ concat (map fst pages),
           after_cursor := last_cursor (after_cursor ?st2) pages,
           page := page ?st2 + int (length pages),
           requests := requests ?st2 @ sent_cursors (after_cursor ?st2) pages\<rparr>
      = st\<lparr>all_posts := all_posts st @ concat (map fst (pg # pages)),
           after_cursor := last_cursor (after_cursor st) (pg # pages),
           page := page st + int (length (pg # pages)),
           requests := requests st @ sent_cursors (after_cursor st) (pg # pages)\<rparr>"
    by (simp add: pg last_cursor_def sent_cursors_def)
  show ?case unfolding 1 2 3 ..
qed

lemma fetch_loop_scripted_stop:
  assumes sc: "scripted post 1 PNone pages"
    and le: "int (length pages) + 1 \<le> max_pages"
    and stop: "\<forall>es c. \<not> continuing_page (post (int (length pages) + 1) (last_cursor PNone pages)) es c"
  shows "fetch_user_posts post max_pages =
       concat (map fst pages) @ appended_edges (post (int (length pages) + 1) (last_cursor PNone pages))"
    and "requests (fetch_run post max_pages) = PNone # map snd pages"
proof -
  let ?init = "\<lparr>all_posts = [], after_cursor = PNone, page = 1, requests = []\<rparr>"
  let ?c = "last_cursor PNone pages"
  let ?mid = "\<lparr>all_posts = concat (map fst pages), after_cursor = ?c,
      page = 1 + int (length pages), requests = sent_cursors PNone pages\<rparr>"
  let ?r = "post (int (length pages) + 1) ?c"
  have "fetch_run post max_pages = fetch_loop post max_pages ?mid"
    unfolding fetch_run_def
    using fetch_loop_scripted[where post = post and st = ?init and pages = pages and max_pages = max_pages]
      sc le by (simp add: add.commute)
  moreover obtain b st' where fp: "fetch_page post ?mid = (b, st')"
    by (cases "fetch_page post ?mid")
  moreover have nb: "\<not> b" and ap: "all_posts st' = concat (map fst pages) @ appended_edges ?r"
    and rq: "requests st' = sent_cursors PNone pages @ [?c]"
    using fp stop unfolding fetch_page_read
    by (auto simp: continuing_page_def Let_def add.commute read_page_appended
        split: option.splits if_splits)
  moreover have "fetch_loop post max_pages ?mid = st'"
    using fetch_loop_stop[where st = ?mid and max_pages = max_pages and post = post and st' = st']
      fp nb le by (simp add: add.commute)
  moreover have "sent_cursors PNone pages @ [?c] = PNone # map snd pages"
    unfolding sent_cursors_def last_cursor_def by simp
  ultimately show "fetch_user_posts post max_pages =
       concat (map fst pages) @ appended_edges (post (int (length pages) + 1) (last_cursor PNone pages))"
    and "requests (fetch_run post max_pages) = PNone # map snd pages"
    by (simp_all add: fetch_user_posts_def)
qed

lemma not_continuing:
  "read_page r = None \<or> (\<exists>es h c. read_page r = Some (es, h, c) \<and> (es = [] \<or> \<not> truthy h \<or> \<not> truthy c))
   \<Longrightarrow> \<not> continuing_page r es' c'"
  by (auto simp: continuing_page_def)

lemma failed_before_edges_appended:
  "failed_before_edges r \<Longrightarrow> read_page r = None \<and> appended_edges r = []"
  by (auto simp: failed_before_edges_def read_page_def appended_edges_def split: option.splits)

lemma fetch_loop_always_more:
  "always_more post \<Longrightarrow>
   length (requests (fetch_loop post max_pages st)) = length (requests st) + nat (max_pages + 1 - page st)"
proof (induction "nat (max_pages + 1 - page st)" arbitrary: st)
  case 0
  then have "\<not> page st \<le> max_pages" by simp
  then show ?case using 0 by (simp add: fetch_loop_done)
next
  case (Suc n)
  then have le: "page st \<le> max_pages" by simp
  from Suc.prems obtain es c where g: "continuing_page (post (page st) (after_cursor st)) es c"
    unfolding always_more_def by blast
  let ?st1 = "st\<lparr>all_posts := all_posts st @ es, after_cursor := c,
              requests := requests st @ [after_cursor st]\<rparr>"
  let ?st2 = "?st1\<lparr>page := page ?st1 + 1\<rparr>"
  have 1: "fetch_loop post max_pages st = fetch_loop post max_pages ?st2"
    using fetch_loop_step[OF le fetch_page_continuing[of post st es c, OF g]] .
  have "length (requests (fetch_loop post max_pages ?st2))
      = length (requests ?st2) + nat (max_pages + 1 - page ?st2)"
    using Suc.hyps(2) Suc.prems by (intro Suc.hyps(1)) simp_all
  then show ?case unfolding 1 using le by simp
qed

text \<open>
  C6. Against an endpoint that always answers with at least one edge, a truthy
  \<^verbatim>\<open>has_next_page\<close> and a truthy \<^verbatim>\<open>end_cursor\<close>, \<^verbatim>\<open>fetch_user_posts\<close> with
  \<^verbatim>\<open>max_pages\<close> = n sends exactly n requests (none for n below 1) and returns.
\<close>

theorem pagination_respects_max_pages:
  "always_more post \<Longrightarrow> length (requests (fetch_run post max_pages)) = nat max_pages"
  unfolding fetch_run_def
  using fetch_loop_always_more[where post = post and max_pages = max_pages
      and st = "\<lparr>all_posts = [], after_cursor = PNone, page = 1, requests = []\<rparr>"]
  by simp

text \<open>
  C5. When page 1 is a continuing page and page 2, requested with the cursor of page 1,
  reads with a falsy \<^verbatim>\<open>has_next_page\<close> or a falsy (absent) \<^verbatim>\<open>end_cursor\<close>, the result
  is the edges of page 1 followed by those of page 2, and exactly two requests are sent.
  More generally, an iteration goes on to the next page only when the page was read in
  full with at least one edge, a truthy \<^verbatim>\<open>has_next_page\<close> and an \<^verbatim>\<open>end_cursor\<close> that is
  truthy, hence present; the cursor kept is that one.
\<close>

theorem pagination_halts_on_last_page:
  "(continuing_page (post 1 PNone) edges1 cursor1 \<longrightarrow>
    read_page (post 2 cursor1) = Some (edges2, has_next_page, end_cursor) \<longrightarrow>
    \<not> truthy has_next_page \<or> \<not> truthy end_cursor \<longrightarrow>
    2 \<le> max_pages \<longrightarrow>
      fetch_user_posts post max_pages = edges1 @ edges2 \<and>
      requests (fetch_run post max_pages) = [PNone, cursor1]) \<and>
   (fetch_page post st = (True, st') \<longrightarrow>
      (\<exists>es has_next end_cur.
         read_page (post (page st) (after_cursor st)) = Some (es, has_next, end_cur) \<and>
         es \<noteq> [] \<and> truthy has_next \<and> truthy end_cur \<and> end_cur \<noteq> PNone \<and>
         after_cursor st' = end_cur))"
proof -
  have a: "fetch_user_posts post max_pages = edges1 @ edges2 \<and>
      requests (fetch_run post max_pages) = [PNone, cursor1]"
    if g: "continuing_page (post 1 PNone) edges1 cursor1"
      and r: "read_page (post 2 cursor1) = Some (edges2, has_next_page, end_cursor)"
      and n: "\<not> truthy has_next_page \<or> \<not> truthy end_cursor"
      and m: "2 \<le> max_pages"
  proof -
    have sc: "scripted post 1 PNone [(edges1, cursor1)]" using g by simp
    have le: "int (length [(edges1, cursor1)]) + 1 \<le> max_pages" using m by simp
    have lc: "last_cursor PNone [(edges1, cursor1)] = cursor1" by (simp add: last_cursor_def)
    have stop: "\<forall>es c. \<not> continuing_page
        (post (int (length [(edges1, cursor1)]) + 1) (last_cursor PNone [(edges1, cursor1)])) es c"
      unfolding lc using r n by (auto simp: continuing_page_def)
    show ?thesis
      using fetch_loop_scripted_stop[OF sc le stop] read_page_appended[OF r]
      by (simp add: lc)
  qed
  have b: "\<exists>es has_next end_cur.
         read_page (post (page st) (after_cursor st)) = Some (es, has_next, end_cur) \<and>
         es \<noteq> [] \<and> truthy has_next \<and> truthy end_cur \<and> end_cur \<noteq> PNone \<and>
         after_cursor st' = end_cur"
    if "fetch_page post st = (True, st')"
    using that unfolding fetch_page_read
    by (auto simp: Let_def split: option.splits if_splits)
  from a b show ?thesis by blast
qed

text \<open>
  C7, amended. After k - 1 continuing pages, with page k within \<^verbatim>\<open>max_pages\<close>: if page
  k fails before its edges are read (in particular on a transport error, a status other
  than 200 or a body that is not JSON), the function returns the edges of pages 1 to
  k - 1, having sent k requests; if it fails after its edges are read, or reads in full
  but does not continue (no edges, or fields missing so that \<^verbatim>\<open>has_next_page\<close> or
  \<^verbatim>\<open>end_cursor\<close> take their defaults), it returns those edges followed by the edges of
  page k. The function is total: no exception reaches the caller.
\<close>

theorem pagination_stops_at_failed_page:
  assumes sc: "scripted post 1 PNone pages"
    and le: "int (length pages) + 1 \<le> max_pages"
    and r: "r = post (int (length pages) + 1) (last_cursor PNone pages)"
  shows "(failed_before_edges r \<longrightarrow>
       fetch_user_posts post max_pages = concat (map fst pages) \<and>
       requests (fetch_run post max_pages) = PNone # map snd pages) \<and>
     (failed_after_edges r \<longrightarrow>
       fetch_user_posts post max_pages = concat (map fst pages) @ appended_edges r \<and>
       requests (fetch_run post max_pages) = PNone # map snd pages) \<and>
     (\<forall>es has_next_page end_cursor.
        read_page r = Some (es, has_next_page, end_cursor) \<longrightarrow>
        es = [] \<or> \<not> truthy has_next_page \<or> \<not> truthy end_cursor \<longrightarrow>
          fetch_user_posts post max_pages = concat (map fst pages) @ es \<and>
          requests (fetch_run post max_pages) = PNone # map snd pages) \<and>
     ((\<exists>e. r = Inl e) \<or>
      (\<exists>resp. r = Inr resp \<and> (status_code resp \<noteq> 200 \<or> json_body resp = None))
        \<longrightarrow> failed_before_edges r)"
proof -
  have gen: "fetch_user_posts post max_pages = concat (map fst pages) @ appended_edges r \<and>
       requests (fetch_run post max_pages) = PNone # map snd pages"
    if "\<forall>es c. \<not> continuing_page r es c"
    using fetch_loop_scripted_stop[OF sc le that[unfolded r]] r by simp
  have 1: "failed_before_edges r \<longrightarrow>
       fetch_user_posts post max_pages = concat (map fst pages) \<and>
       requests (fetch_run post max_pages) = PNone # map snd pages"
  proof
    assume f: "failed_before_edges r"
    then have "\<forall>es c. \<not> continuing_page r es c"
      using failed_before_edges_appended[OF f] by (simp add: continuing_page_def)
    from gen[OF this] failed_before_edges_appended[OF f]
    show "fetch_user_posts post max_pages = concat (map fst pages) \<and>
       requests (fetch_run post max_pages) = PNone # map snd pages" by simp
  qed
  have 2: "failed_after_edges r \<longrightarrow>
       fetch_user_posts post max_pages = concat (map fst pages) @ appended_edges r \<and>
       requests (fetch_run post max_pages) = PNone # map snd pages"
  proof
    assume "failed_after_edges r"
    then have "read_page r = None"
      by (auto simp: failed_after_edges_def split: option.splits)
    then have "\<forall>es c. \<not> continuing_page r es c" by (simp add: continuing_page_def)
    from gen[OF this] show "fetch_user_posts post max_pages = concat (map fst pages) @ appended_edges r \<and>
       requests (fetch_run post max_pages) = PNone # map snd pages" .
  qed
  have 3: "\<forall>es has_next_page end_cursor.
        read_page r = Some (es, has_next_page, end_cursor) \<longrightarrow>
        es = [] \<or> \<not> truthy has_next_page \<or> \<not> truthy end_cursor \<longrightarrow>
          fetch_user_posts post max_pages = concat (map fst pages) @ es \<and>
          requests (fetch_run post max_pages) = PNone # map snd pages"
  proof (intro allI impI)
    fix es has_next_page end_cursor
    assume rp: "read_page r = Some (es, has_next_page, end_cursor)"
      and n: "es = [] \<or> \<not> truthy has_next_page \<or> \<not> truthy end_cursor"
    then have "\<forall>es c. \<not> continuing_page r es c" by (auto simp: continuing_page_def)
    from gen[OF this] read_page_appended[OF rp]
    show "fetch_user_posts post max_pages = concat (map fst pages) @ es \<and>
          requests (fetch_run post max_pages) = PNone # map snd pages" by simp
  qed
  have 4: "(\<exists>e. r = Inl e) \<or>
      (\<exists>resp. r = Inr resp \<and> (status_code resp \<noteq> 200 \<or> json_body resp = None))
        \<longrightarrow> failed_before_edges r"
    by (auto simp: failed_before_edges_def timeline_data_of_def)
  from 1 2 3 4 show ?thesis by (intro conjI)
qed

text \<open>
  C7, as stated, fails: page 1 of the first endpoint has one edge and a \<^verbatim>\<open>page_info\<close>
  that is \<^verbatim>\<open>None\<close>, so reading \<^verbatim>\<open>has_next_page\<close> raises after the edge was appended;
  the result is that edge, not the empty list of the pages before page 1. The second
  endpoint omits \<^verbatim>\<open>page_info\<close>, with the same result.
\<close>

theorem page_info_failure_keeps_page_edges:
  "failed_after_edges
     (Inr (Response 200 (Some (PDict [(''data'', PDict [(timeline_key,
        PDict [(''edges'', PList [PDict [(''node'', PDict [(''pk'', PStr ''1'')])]]),
               (''page_info'', PNone)])])])))) \<and>
   fetch_user_posts
     (\<lambda>p cursor. Inr (Response 200 (Some (PDict [(''data'', PDict [(timeline_key,
        PDict [(''edges'', PList [PDict [(''node'', PDict [(''pk'', PStr ''1'')])]]),
               (''page_info'', PNone)])])]))))
     3
   = [PDict [(''node'', PDict [(''pk'', PStr ''1'')])]] \<and>
   fetch_user_posts
     (\<lambda>p cursor. Inr (Response 200 (Some (PDict [(''data'', PDict [(timeline_key,
        PDict [(''edges'', PList [PDict [(''node'', PDict [(''pk'', PStr ''1'')])]])])])]))))
     3
   = [PDict [(''node'', PDict [(''pk'', PStr ''1'')])]]"
proof -
  let ?e = "PDict [(''node'', PDict [(''pk'', PStr ''1'')])]"
  let ?r1 = "Inr (Response 200 (Some (PDict [(''data'', PDict [(timeline_key,
        PDict [(''edges'', PList [?e]), (''page_info'', PNone)])])])))"
  let ?r2 = "Inr (Response 200 (Some (PDict [(''data'', PDict [(timeline_key,
        PDict [(''edges'', PList [?e])])])])))"
  let ?init = "\<lparr>all_posts = [], after_cursor = PNone, page = 1, requests = []\<rparr>"
  have 1: "failed_after_edges ?r1"
    by (simp add: failed_after_edges_def timeline_data_of_def edges_of_def read_page_def)
  have p1: "fetch_page (\<lambda>p cursor. ?r1) ?init = (False, ?init\<lparr>requests := [PNone], all_posts := [?e]\<rparr>)"
    by (simp add: fetch_page_def)
  have p2: "fetch_page (\<lambda>p cursor. ?r2) ?init
      = (False, ?init\<lparr>requests := [PNone], all_posts := [?e], after_cursor := PNone\<rparr>)"
    by (simp add: fetch_page_def)
  have 2: "fetch_user_posts (\<lambda>p cursor. ?r1) 3 = [?e]"
    unfolding fetch_user_posts_def fetch_run_def
    by (subst fetch_loop.simps) (simp add: p1)
  have 3: "fetch_user_posts (\<lambda>p cursor. ?r2) 3 = [?e]"
    unfolding fetch_user_posts_def fetch_run_def
    by (subst fetch_loop.simps) (simp add: p2)
  from 1 2 3 show ?thesis by (intro conjI)
qed

theorem pagination_respects_max_pages_witness:
  "always_more
     (\<lambda>p cursor. Inr (Response 200 (Some (PDict [(''data'', PDict [(timeline_key,
        PDict [(''edges'', PList [PDict [(''node'', PDict [(''pk'', PStr ''1'')])]]),
               (''page_info'', PDict [(''has_next_page'', PBool True),
                                      (''end_cursor'', PStr ''next'')])])])])))) \<and>
   length (requests (fetch_run
     (\<lambda>p cursor. Inr (Response 200 (Some (PDict [(''data'', PDict [(timeline_key,
        PDict [(''edges'', PList [PDict [(''node'', PDict [(''pk'', PStr ''1'')])]]),
               (''page_info'', PDict [(''has_next_page'', PBool True),
                                      (''end_cursor'', PStr ''next'')])])])]))))
     3)) = 3"
proof -
  let ?post = "\<lambda>(p::int) (cursor::py). Inr (Response 200 (Some (PDict [(''data'', PDict [(timeline_key,
        PDict [(''edges'', PList [PDict [(''node'', PDict [(''pk'', PStr ''1'')])]]),
               (''page_info'', PDict [(''has_next_page'', PBool True),
                                      (''end_cursor'', PStr ''next'')])])])]))) :: error + response"
  have a: "always_more ?post"
    by (simp add: always_more_def continuing_page_def read_page_def timeline_data_of_def
        edges_of_def)
  from pagination_respects_max_pages[OF a, of 3] a show ?thesis by simp
qed

theorem pagination_halts_on_last_page_witness:
  "fetch_user_posts
     (\<lambda>p cursor.
        if p = 1 then
          Inr (Response 200 (Some (PDict [(''data'', PDict [(timeline_key,
            PDict [(''edges'', PList [PStr ''a'']),
                   (''page_info'', PDict [(''has_next_page'', PBool True),
                                          (''end_cursor'', PStr ''c1'')])])])])))
        else
          Inr (Response 200 (Some (PDict [(''data'', PDict [(timeline_key,
            PDict [(''edges'', PList [PStr ''b'']),
                   (''page_info'', PDict [(''has_next_page'', PBool False)])])])]))))
     5
   = [PStr ''a'', PStr ''b''] \<and>
   requests (fetch_run
     (\<lambda>p cursor.
        if p = 1 then
          Inr (Response 200 (Some (PDict [(''data'', PDict [(timeline_key,
            PDict [(''edges'', PList [PStr ''a'']),
                   (''page_info'', PDict [(''has_next_page'', PBool True),
                                          (''end_cursor'', PStr ''c1'')])])])])))
        else
          Inr (Response 200 (Some (PDict [(''data'', PDict [(timeline_key,
            PDict [(''edges'', PList [PStr ''b'']),
                   (''page_info'', PDict [(''has_next_page'', PBool False)])])])]))))
     5)
   = [PNone, PStr ''c1'']"
proof -
  let ?post = "\<lambda>(p::int) (cursor::py).
        if p = 1 then
          Inr (Response 200 (Some (PDict [(''data'', PDict [(timeline_key,
            PDict [(''edges'', PList [PStr ''a'']),
                   (''page_info'', PDict [(''has_next_page'', PBool True),
                                          (''end_cursor'', PStr ''c1'')])])])])))
        else
          Inr (Response 200 (Some (PDict [(''data'', PDict [(timeline_key,
            PDict [(''edges'', PList [PStr ''b'']),
                   (''page_info'', PDict [(''has_next_page'', PBool False)])])])]))) :: error + response"
  have h1: "continuing_page (?post 1 PNone) [PStr ''a''] (PStr ''c1'')"
    by (simp add: continuing_page_def read_page_def timeline_data_of_def edges_of_def)
  have h2: "read_page (?post 2 (PStr ''c1'')) = Some ([PStr ''b''], PBool False, PNone)"
    by (simp add: read_page_def timeline_data_of_def edges_of_def)
  have h3: "\<not> truthy (PBool False) \<or> \<not> truthy PNone" by simp
  have h4: "(2::int) \<le> 5" by simp
  from pagination_halts_on_last_page[where post = ?post and max_pages = 5
      and ?edges1.0 = "[PStr ''a'']" and ?cursor1.0 = "PStr ''c1''" and ?edges2.0 = "[PStr ''b'']"
      and has_next_page = "PBool False" and end_cursor = PNone]
    h1 h2 h3 h4
  show ?thesis by simp
qed

theorem pagination_stops_at_failed_page_witness:
  "scripted
     (\<lambda>p cursor.
        if p = 1 then
          Inr (Response 200 (Some (PDict [(''data'', PDict [(timeline_key,
            PDict [(''edges'', PList [PStr ''a'']),
                   (''page_info'', PDict [(''has_next_page'', PBool True),
                                          (''end_cursor'', PStr ''c1'')])])])])))
        else Inl RequestException)
     1 PNone [([PStr ''a''], PStr ''c1'')] \<and>
   failed_before_edges (Inl RequestException) \<and>
   fetch_user_posts
     (\<lambda>p cursor.
        if p = 1 then
          Inr (Response 200 (Some (PDict [(''data'', PDict [(timeline_key,
            PDict [(''edges'', PList [PStr ''a'']),
                   (''page_info'', PDict [(''has_next_page'', PBool True),
                                          (''end_cursor'', PStr ''c1'')])])])])))
        else Inl RequestException)
     5
   = [PStr ''a'']"
proof -
  let ?post = "\<lambda>(p::int) (cursor::py).
        if p = 1 then
          Inr (Response 200 (Some (PDict [(''data'', PDict [(timeline_key,
            PDict [(''edges'', PList [PStr ''a'']),
                   (''page_info'', PDict [(''has_next_page'', PBool True),
                                          (''end_cursor'', PStr ''c1'')])])])])))
        else Inl RequestException :: error + response"
  have sc: "scripted ?post 1 PNone [([PStr ''a''], PStr ''c1'')]"
    by (simp add: continuing_page_def read_page_def timeline_data_of_def edges_of_def)
  have le: "int (length [([PStr ''a''], PStr ''c1'')]) + 1 \<le> 5" by simp
  have r: "Inl RequestException
      = ?post (int (length [([PStr ''a''], PStr ''c1'')]) + 1) (last_cursor PNone [([PStr ''a''], PStr ''c1'')])"
    by simp
  have f: "failed_before_edges (Inl RequestException)"
    by (simp add: failed_before_edges_def timeline_data_of_def)
  from pagination_stops_at_failed_page[OF sc le r] f sc
  show ?thesis by simp
qed

end
